theory Spec2Isabelle
  imports Complex_Main "HOL-Library.AList" "HOL-Library.Sublist"
begin

section \<open>Python values and dictionaries\<close>

text \<open>
  The test cases and results of \<^verbatim>\<open>_llm_response_generation.py\<close> are Python dicts with
  string keys. A dict is an association list; \<open>AList.update\<close> keeps the position of a key
  that is already there and appends a new one, as Python's insertion order does, and
  \<open>map_of\<close> is the lookup. Besides JSON data a test case carries three objects that
  \<^verbatim>\<open>generate_results\<close> attaches to it: the closures \<^verbatim>\<open>increment_rate_limit\<close> and
  \<^verbatim>\<open>get_active_count\<close> and the shared \<^verbatim>\<open>threading.Event\<close>.
  Strings are byte lists (UTF-8); times are rationals.
\<close>

datatype pyval =
    PNone
  | PBool bool
  | PInt int
  | PFloat rat
  | PStr string
  | PList "pyval list"
  | PDict "(string \<times> pyval) list"
  | PIncrementRateLimit
  | PGetActiveCount
  | PEvent

type_synonym pydict = "(string \<times> pyval) list"

datatype py_error =
    KeyError string
  | AssertionError
  | TypeError
  | AttributeError

text \<open>Python truthiness, as used by \<^verbatim>\<open>if stall_event:\<close>.\<close>

fun truthy :: "pyval \<Rightarrow> bool" where
  "truthy PNone = False"
| "truthy (PBool b) = b"
| "truthy (PInt i) = (i \<noteq> 0)"
| "truthy (PFloat r) = (r \<noteq> 0)"
| "truthy (PStr s) = (s \<noteq> [])"
| "truthy (PList xs) = (xs \<noteq> [])"
| "truthy (PDict d) = (d \<noteq> [])"
| "truthy PIncrementRateLimit = True"
| "truthy PGetActiveCount = True"
| "truthy PEvent = True"

text \<open>\<^verbatim>\<open>d.pop(k, None)\<close>: the value (or None) and the dict without the key.\<close>

definition pop :: "string \<Rightarrow> pydict \<Rightarrow> pyval \<times> pydict" where
  "pop k d = (case map_of d k of None \<Rightarrow> (PNone, d) | Some v \<Rightarrow> (v, AList.delete k d))"

text \<open>\<^verbatim>\<open>d.update(m)\<close>: every item of \<open>m\<close> is stored into \<open>d\<close>, in order.\<close>

definition dict_update :: "pydict \<Rightarrow> pydict \<Rightarrow> pydict" where
  "dict_update d m = fold (\<lambda>(k, v). AList.update k v) m d"

section \<open>Strings\<close>

text \<open>\<^verbatim>\<open>p in s\<close> on strings: \<open>p\<close> occurs in \<open>s\<close> as a contiguous piece.\<close>

fun substr :: "string \<Rightarrow> string \<Rightarrow> bool" where
  "substr p [] = (p = [])"
| "substr p (c # cs) = (prefix p (c # cs) \<or> substr p cs)"

text \<open>
  \<^verbatim>\<open>str.lower()\<close>. The letters A to Z are mapped to a to z and every other byte is kept.
  Python also lower-cases letters beyond ASCII; those stay beyond ASCII (or, for U+0130 and
  U+212A, give an \<open>i\<close> followed by a combining dot and a \<open>k\<close>), which no pattern searched
  for below can match, so the searches agree.
\<close>

definition lower_char :: "char \<Rightarrow> char" where
  "lower_char c =
     (case map_of (zip ''ABCDEFGHIJKLMNOPQRSTUVWXYZ'' ''abcdefghijklmnopqrstuvwxyz'') c of
        None \<Rightarrow> c
      | Some l \<Rightarrow> l)"

definition py_lower :: "string \<Rightarrow> string" where
  "py_lower s = map lower_char s"

text \<open>The bytes of the provider's overload message (five CJK characters) in UTF-8.\<close>

definition overload_str :: string where
  "overload_str =
     [CHR 0xE8, CHR 0xB4, CHR 0x9F, CHR 0xE8, CHR 0xBD, CHR 0xBD, CHR 0xE5, CHR 0xB7, CHR 0xB2,
      CHR 0xE9, CHR 0xA5, CHR 0xB1, CHR 0xE5, CHR 0x92, CHR 0x8C]"

section \<open>The inference client and the environment of one job\<close>

text \<open>
  An exception raised inside the \<^verbatim>\<open>try\<close> block: \<^verbatim>\<open>str(e)\<close>, the attribute
  \<^verbatim>\<open>status_code\<close> when the exception has one, and what \<^verbatim>\<open>traceback.format_exc()\<close>
  returns for it.
\<close>

record exn =
  message :: string
  status_code :: "int option"
  format_exc :: string

datatype outcome =
    Returns pyval pydict
  | Raises exn

text \<open>
  What a worker does that the rest of the run can see: calls of \<^verbatim>\<open>handler.inference\<close>
  (with the copy it was given), \<^verbatim>\<open>time.sleep\<close> and calls of the rate-limit counter.
\<close>

datatype event =
    Infer pydict
  | Sleep rat
  | IncrementRL

text \<open>
  Everything outside the worker is a function of the events so far: the inference client,
  the number of futures that are not done, the state of the stall event and the clock.
\<close>

record env =
  inference :: "event list \<Rightarrow> pydict \<Rightarrow> outcome"
  active_count :: "event list \<Rightarrow> int"
  is_set :: "event list \<Rightarrow> bool"
  now :: "event list \<Rightarrow> rat"

fun is_Infer :: "event \<Rightarrow> bool" where
  "is_Infer (Infer c) = True"
| "is_Infer e = False"

definition invocations :: "event list \<Rightarrow> nat" where
  "invocations tr = length (filter is_Infer tr)"

text \<open>The durations passed to \<^verbatim>\<open>time.sleep\<close>, in order, and their sum.\<close>

fun sleeps :: "event list \<Rightarrow> rat list" where
  "sleeps [] = []"
| "sleeps (Sleep d # tr) = d # sleeps tr"
| "sleeps (e # tr) = sleeps tr"

definition slept :: "event list \<Rightarrow> rat" where
  "slept tr = sum_list (sleeps tr)"

section \<open>multi_threaded_inference\<close>

definition RETRY_LIMIT :: nat where
  "RETRY_LIMIT = 3"

definition RETRY_DELAY :: int where
  "RETRY_DELAY = 65"

record mstate =
  test_case :: pydict
  retry_count :: nat
  rate_limit_count :: nat
  trace :: "event list"

datatype step =
    is_Retry: Retry mstate
  | Finished "py_error + pydict" mstate

text \<open>The condition of the \<^verbatim>\<open>if\<close> at the head of the \<^verbatim>\<open>except\<close> block.\<close>

definition is_transient :: "exn \<Rightarrow> bool" where
  "is_transient e =
     (let error_str = py_lower (message e) in
        substr ''rate limit reached'' error_str
      \<or> (case status_code e of None \<Rightarrow> False | Some c \<Rightarrow> c \<in> {429, 503, 500})
      \<or> substr ''timeout'' error_str
      \<or> substr ''timed out'' error_str
      \<or> substr ''read timed out'' error_str
      \<or> substr overload_str (message e)
      \<or> substr ''relay error'' error_str)"

text \<open>The check for a timeout inside the transient branch.\<close>

definition is_timeout :: "exn \<Rightarrow> bool" where
  "is_timeout e =
     (let error_str = py_lower (message e) in
        substr ''timeout'' error_str \<or> substr ''timed out'' error_str)"

text \<open>The nested function \<^verbatim>\<open>get_active_test_count\<close>.\<close>

definition get_active_test_count :: "env \<Rightarrow> pydict \<Rightarrow> event list \<Rightarrow> py_error + int" where
  "get_active_test_count ev tc tr =
     (case map_of tc ''_get_active_count'' of
        None \<Rightarrow> Inr 999
      | Some PGetActiveCount \<Rightarrow> Inr (active_count ev tr)
      | Some _ \<Rightarrow> Inl TypeError)"

definition dynamic_delay :: "int \<Rightarrow> int" where
  "dynamic_delay n =
     (if n \<le> 6 then
        (if n = 1 then 5
         else if n = 2 then 10
         else if n = 3 then 15
         else if n = 4 then 20
         else if n = 5 then 35
         else 45)
      else RETRY_DELAY)"

text \<open>
  The wait that polls the stall event: \<^verbatim>\<open>while elapsed < dynamic_delay\<close>, leaving at once
  when the event is set and sleeping half a second otherwise.
\<close>

function stall_wait :: "env \<Rightarrow> rat \<Rightarrow> rat \<Rightarrow> pydict \<times> event list \<Rightarrow> pydict \<times> event list" where
  "stall_wait ev d elapsed (tc, tr) =
     (if elapsed < d then
        (if is_set ev tr then (AList.update ''_last_poke_time'' (PFloat (now ev tr)) tc, tr)
         else stall_wait ev d (elapsed + 1/2) (tc, tr @ [Sleep (min (1/2) (d - elapsed))]))
      else (tc, tr))"
  by pat_completeness auto
termination
proof (relation "measure (\<lambda>(ev, d, elapsed, p). nat \<lceil>2 * (d - elapsed)\<rceil>)")
  show "wf (measure (\<lambda>(ev, d, elapsed, p). nat \<lceil>2 * (d - elapsed)\<rceil>))"
    by simp
next
  fix ev :: env and d elapsed :: rat and tc :: pydict and tr :: "event list"
  assume lt: "elapsed < d"
  have eq: "2 * (d - (elapsed + 1/2)) = 2 * (d - elapsed) - 1"
    by (simp add: algebra_simps)
  have pos: "0 < \<lceil>2 * (d - elapsed)\<rceil>"
    using lt by (simp add: ceiling_less_iff)
  have "\<lceil>2 * (d - (elapsed + 1/2))\<rceil> = \<lceil>2 * (d - elapsed)\<rceil> - 1"
    unfolding eq by simp
  with pos have "nat \<lceil>2 * (d - (elapsed + 1/2))\<rceil> < nat \<lceil>2 * (d - elapsed)\<rceil>"
    by simp
  then show "((ev, d, elapsed + 1/2, tc, tr @ [Sleep (min (1/2) (d - elapsed))]),
              (ev, d, elapsed, tc, tr))
             \<in> measure (\<lambda>(ev, d, elapsed, p). nat \<lceil>2 * (d - elapsed)\<rceil>)"
    by simp
qed

declare stall_wait.simps [simp del]

text \<open>The sleep after a rate limit: with the stall event, or \<^verbatim>\<open>time.sleep(dynamic_delay)\<close>.\<close>

definition backoff :: "env \<Rightarrow> int \<Rightarrow> pydict \<times> event list \<Rightarrow> py_error + pydict \<times> event list" where
  "backoff ev delay p =
     (case p of (tc, tr) \<Rightarrow>
        (case map_of tc ''_stall_event'' of
           None \<Rightarrow> Inr (tc, tr @ [Sleep (of_int delay)])
         | Some v \<Rightarrow>
             if truthy v then
               (if v = PEvent then Inr (stall_wait ev (of_int delay) 0 (tc, tr))
                else Inl AttributeError)
             else Inr (tc, tr @ [Sleep (of_int delay)])))"

text \<open>The call \<^verbatim>\<open>test_case["_increment_rate_limit"]()\<close> when the key is there.\<close>

definition call_increment :: "pydict \<Rightarrow> event list \<Rightarrow> py_error + event list" where
  "call_increment tc tr =
     (case map_of tc ''_increment_rate_limit'' of
        None \<Rightarrow> Inr tr
      | Some PIncrementRateLimit \<Rightarrow> Inr (tr @ [IncrementRL])
      | Some _ \<Rightarrow> Inl TypeError)"

text \<open>The dict returned from the \<^verbatim>\<open>else\<close> branch of the \<^verbatim>\<open>except\<close> block.\<close>

definition error_type_of :: "exn \<Rightarrow> pyval" where
  "error_type_of e =
     (if substr ''content_filter'' (message e) \<or> substr ''content management policy'' (message e)
      then PStr ''content_filter'' else PNone)"

definition error_result :: "pyval \<Rightarrow> exn \<Rightarrow> pydict" where
  "error_result i e =
     [(''id'', i),
      (''result'', PStr (''Error during inference: '' @ message e)),
      (''traceback'', PStr (format_exc e)),
      (''_error_type'', error_type_of e)]"

text \<open>The \<^verbatim>\<open>except Exception as e\<close> block.\<close>

definition handle_exception :: "env \<Rightarrow> exn \<Rightarrow> mstate \<Rightarrow> step" where
  "handle_exception ev e s =
     (if is_transient e then
        (let rlc = rate_limit_count s + 1;
             tc1 = AList.update ''_rate_limit_count'' (PInt (int rlc)) (test_case s);
             tc2 = AList.update ''_last_retry_time'' (PFloat (now ev (trace s))) tc1;
             s1 = s\<lparr>test_case := tc2, retry_count := retry_count s + 1, rate_limit_count := rlc\<rparr>
         in case call_increment tc2 (trace s) of
              Inl err \<Rightarrow> Finished (Inl err) s1
            | Inr tr1 \<Rightarrow>
                if is_timeout e then
                  (case map_of tc2 ''id'' of
                     None \<Rightarrow> Finished (Inl (KeyError ''id'')) (s1\<lparr>trace := tr1\<rparr>)
                   | Some i \<Rightarrow> Retry (s1\<lparr>trace := tr1\<rparr>))
                else
                  (case get_active_test_count ev tc2 tr1 of
                     Inl err \<Rightarrow> Finished (Inl err) (s1\<lparr>trace := tr1\<rparr>)
                   | Inr n \<Rightarrow>
                       (case backoff ev (dynamic_delay n) (tc2, tr1) of
                          Inl err \<Rightarrow> Finished (Inl err) (s1\<lparr>trace := tr1\<rparr>)
                        | Inr (tc3, tr2) \<Rightarrow> Retry (s1\<lparr>test_case := tc3, trace := tr2\<rparr>))))
      else
        (case map_of (test_case s) ''id'' of
           None \<Rightarrow> Finished (Inl (KeyError ''id'')) s
         | Some i \<Rightarrow> Finished (Inr (error_result i e)) s))"

text \<open>
  The head of the \<^verbatim>\<open>try\<close> block: the three attached objects are popped, the test case is
  copied, and those that are truthy are put back. The pair is the test case and the copy.
\<close>

definition strip_and_copy :: "pydict \<Rightarrow> pydict \<times> pydict" where
  "strip_and_copy tc =
     (let (stall_event, tc1) = pop ''_stall_event'' tc;
          (increment_rate_limit, tc2) = pop ''_increment_rate_limit'' tc1;
          (get_active_count, tc3) = pop ''_get_active_count'' tc2;
          tc4 = (if truthy stall_event then AList.update ''_stall_event'' stall_event tc3 else tc3);
          tc5 = (if truthy increment_rate_limit
                 then AList.update ''_increment_rate_limit'' increment_rate_limit tc4 else tc4);
          tc6 = (if truthy get_active_count
                 then AList.update ''_get_active_count'' get_active_count tc5 else tc5)
      in (tc6, tc3))"

text \<open>The code after the loop, which builds \<^verbatim>\<open>result_to_write\<close>.\<close>

definition success_result :: "pyval \<Rightarrow> pyval \<Rightarrow> pydict \<Rightarrow> nat \<Rightarrow> pydict" where
  "success_result i result metadata rlc =
     (let r = dict_update [(''id'', i), (''result'', result)] metadata
      in if rlc > 0 then AList.update ''_rate_limit_count'' (PInt (int rlc)) r else r)"

text \<open>One pass through the body of \<^verbatim>\<open>while True\<close>.\<close>

definition attempt :: "env \<Rightarrow> mstate \<Rightarrow> step" where
  "attempt ev s =
     (case strip_and_copy (test_case s) of (tc, test_case_copy) \<Rightarrow>
        (let s1 = s\<lparr>test_case := tc, trace := trace s @ [Infer test_case_copy]\<rparr>
         in case inference ev (trace s) test_case_copy of
              Raises e \<Rightarrow> handle_exception ev e s1
            | Returns result metadata \<Rightarrow>
                (case map_of tc ''id'' of
                   None \<Rightarrow> Finished (Inl (KeyError ''id'')) s1
                 | Some i \<Rightarrow>
                     Finished (Inr (success_result i result metadata (rate_limit_count s1))) s1)))"

text \<open>
  The loop has no bound of its own: it runs until an attempt finishes. The first argument
  bounds the number of attempts looked at; \<open>None\<close> says that none of them finished.
\<close>

fun run_attempts :: "nat \<Rightarrow> env \<Rightarrow> mstate \<Rightarrow> ((py_error + pydict) \<times> mstate) option" where
  "run_attempts 0 ev s = None"
| "run_attempts (Suc n) ev s =
     (case attempt ev s of
        Finished r s' \<Rightarrow> Some (r, s')
      | Retry s' \<Rightarrow> run_attempts n ev s')"

definition multi_threaded_inference ::
  "nat \<Rightarrow> env \<Rightarrow> pydict \<Rightarrow> event list \<Rightarrow> ((py_error + pydict) \<times> mstate) option" where
  "multi_threaded_inference fuel ev tc0 tr =
     (let tc1 = AList.update ''_processing_start_time'' (PFloat (now ev tr)) tc0;
          tc2 = AList.update ''_rate_limit_count'' (PInt 0) tc1;
          s = \<lparr>test_case = tc2, retry_count = 0, rate_limit_count = 0, trace = tr\<rparr>
      in case map_of tc2 ''function'' of
           None \<Rightarrow> Some (Inl (KeyError ''function''), s)
         | Some (PList fs) \<Rightarrow> run_attempts fuel ev s
         | Some _ \<Rightarrow> Some (Inl AssertionError, s))"

section \<open>generate_results: the thread-pool branch\<close>

text \<open>Lines 455 to 458: the three objects stored into each test case before it is submitted.\<close>

definition attach :: "pydict \<Rightarrow> pydict" where
  "attach tc =
     AList.update ''_stall_event'' PEvent
       (AList.update ''_get_active_count'' PGetActiveCount
          (AList.update ''_increment_rate_limit'' PIncrementRateLimit tc))"

text \<open>
  Why the processing of a completed future raised: \<^verbatim>\<open>future.result()\<close> re-raised what the
  worker raised, or \<^verbatim>\<open>handler.write\<close> raised (with the text of its exception).
\<close>

datatype failure =
    WorkerRaised py_error
  | WriteFailed string

datatype line =
    CriticalError failure
  | AbortingProgram
  | NothingToGenerate

record gstate =
  content_filter_count :: nat
  write_calls :: "pydict list"
  written :: "pydict list"
  printed :: "line list"

text \<open>
  \<^verbatim>\<open>handler.write\<close> is outside this file: given the results it was called with before and
  the result to write, it stores the result (\<open>None\<close>) or raises (\<open>Some\<close> text).
\<close>

type_synonym writer = "pydict list \<Rightarrow> pydict \<Rightarrow> string option"

text \<open>Lines 549 to 553.\<close>

definition count_error_type :: "nat \<Rightarrow> pydict \<Rightarrow> nat \<times> pydict" where
  "count_error_type cf result =
     (case map_of result ''_error_type'' of
        None \<Rightarrow> (cf, result)
      | Some t \<Rightarrow> ((if t = PStr ''content_filter'' then cf + 1 else cf),
                   AList.delete ''_error_type'' result))"

text \<open>Lines 555 to 559.\<close>

definition strip_internal :: "pydict \<Rightarrow> pydict" where
  "strip_internal result =
     fold (\<lambda>field r. if map_of r field \<noteq> None then AList.delete field r else r)
       [''_rate_limit_count'', ''_increment_rate_limit'', ''_get_active_count'',
        ''_stall_event'', ''_processing_start_time'']
       result"

text \<open>
  What \<^verbatim>\<open>handler.write\<close> is given for a result: the result after lines 549 to 559.
\<close>

definition persisted :: "pydict \<Rightarrow> pydict" where
  "persisted result = strip_internal (snd (count_error_type 0 result))"

text \<open>
  The body of the \<^verbatim>\<open>try\<close> in the loop over \<^verbatim>\<open>as_completed(futures)\<close>, for one future;
  a future holds what the worker returned or what it raised. The progress display is left out.
\<close>

definition process_future :: "writer \<Rightarrow> gstate \<Rightarrow> py_error + pydict \<Rightarrow> failure option \<times> gstate" where
  "process_future w g fut =
     (case fut of
        Inl err \<Rightarrow> (Some (WorkerRaised err), g)
      | Inr result \<Rightarrow>
          (case count_error_type (content_filter_count g) result of (cf, r1) \<Rightarrow>
             (let r2 = strip_internal r1;
                  g1 = g\<lparr>content_filter_count := cf, write_calls := write_calls g @ [r2]\<rparr>
              in case w (write_calls g) r2 of
                   Some msg \<Rightarrow> (Some (WriteFailed msg), g1)
                 | None \<Rightarrow> (None, g1\<lparr>written := written g1 @ [r2]\<rparr>))))"

datatype run_end =
    Completed gstate
  | SysExit int gstate
  | RunRaised py_error
  | BatchInference

text \<open>The loop over the completed futures; its \<^verbatim>\<open>except\<close> block prints and calls \<^verbatim>\<open>sys.exit(1)\<close>.\<close>

fun as_completed_loop :: "writer \<Rightarrow> gstate \<Rightarrow> (py_error + pydict) list \<Rightarrow> run_end" where
  "as_completed_loop w g [] = Completed g"
| "as_completed_loop w g (fut # futs) =
     (case process_future w g fut of
        (Some fl, g') \<Rightarrow> SysExit 1 (g'\<lparr>printed := printed g' @ [CriticalError fl, AbortingProgram]\<rparr>)
      | (None, g') \<Rightarrow> as_completed_loop w g' futs)"

definition initial_gstate :: gstate where
  "initial_gstate = \<lparr>content_filter_count = 0, write_calls = [], written = [], printed = []\<rparr>"

text \<open>
  The run of one model. Each worker has its own view of the rest of the run (\<open>envs j\<close>), and
  \<open>completion_time j\<close> orders the futures as \<^verbatim>\<open>as_completed\<close> yields them. The result is
  \<open>None\<close> when some worker does not return within the attempts looked at.
\<close>

definition workers :: "nat \<Rightarrow> (nat \<Rightarrow> env) \<Rightarrow> pydict list \<Rightarrow> ((py_error + pydict) \<times> mstate) option list" where
  "workers fuel envs test_cases_total =
     map (\<lambda>(j, tc). multi_threaded_inference fuel (envs j) (attach tc) [])
       (enumerate 0 test_cases_total)"

definition generate_results ::
  "bool \<Rightarrow> nat \<Rightarrow> (nat \<Rightarrow> env) \<Rightarrow> writer \<Rightarrow> (nat \<Rightarrow> rat) \<Rightarrow> pydict list \<Rightarrow> run_end option" where
  "generate_results oss fuel envs w completion_time test_cases_total =
     (if oss then Some BatchInference
      else if list_ex (\<lambda>tc. map_of tc ''id'' = None) test_cases_total
        then Some (RunRaised (KeyError ''id''))
      else
        (let futures = workers fuel envs test_cases_total
         in if list_ex (\<lambda>f. f = None) futures then None
            else Some (as_completed_loop w initial_gstate
                         (map (\<lambda>j. fst (the (futures ! j)))
                            (sort_key completion_time [0..<length futures])))))"

section \<open>collect_test_cases and main\<close>

text \<open>\<^verbatim>\<open>s.replace(old, new)\<close>.\<close>

function str_replace :: "string \<Rightarrow> string \<Rightarrow> string \<Rightarrow> string" where
  "str_replace old new s =
     (if old = [] then new @ concat (map (\<lambda>c. c # new) s)
      else if prefix old s then new @ str_replace old new (drop (length old) s)
      else (case s of [] \<Rightarrow> [] | c # cs \<Rightarrow> c # str_replace old new cs))"
  by pat_completeness auto
termination
proof (relation "measure (\<lambda>(old, new, s). length s)")
  show "wf (measure (\<lambda>(old, new, s). length s))"
    by simp
next
  fix old new s :: string
  assume "old \<noteq> []" and "prefix old s"
  then have "s \<noteq> []"
    by auto
  with \<open>old \<noteq> []\<close> show "((old, new, drop (length old) s), (old, new, s))
      \<in> measure (\<lambda>(old, new, s). length s)"
    by simp
next
  fix old new s :: string and c :: char and cs :: string
  assume "s = c # cs"
  then show "((old, new, cs), (old, new, s)) \<in> measure (\<lambda>(old, new, s). length s)"
    by simp
qed

declare str_replace.simps [simp del]

text \<open>
  What \<^verbatim>\<open>collect_test_cases\<close> takes from outside this file: \<^verbatim>\<open>sort_key\<close> and
  \<^verbatim>\<open>is_multi_turn\<close> of \<^verbatim>\<open>bfcl_eval.utils\<close>, the function documents of a class
  (\<^verbatim>\<open>load_file\<close> on the path that \<^verbatim>\<open>MULTI_TURN_FUNC_DOC_FILE_MAPPING\<close> gives), and the
  result files: for a model directory and a file name, the entries of the file if it exists.
\<close>

record 'k repo =
  sort_key_fn :: "pydict \<Rightarrow> 'k"
  is_multi_turn :: "pyval \<Rightarrow> bool"
  load_func_doc :: "pyval \<Rightarrow> py_error + pyval list"
  load_result_file :: "string \<Rightarrow> string \<Rightarrow> pydict list option"

text \<open>\<^verbatim>\<open>[entry["id"] for entry in entries]\<close>.\<close>

fun ids_of :: "pydict list \<Rightarrow> py_error + pyval list" where
  "ids_of [] = Inr []"
| "ids_of (entry # entries) =
     (case map_of entry ''id'' of
        None \<Rightarrow> Inl (KeyError ''id'')
      | Some i \<Rightarrow> (case ids_of entries of Inl err \<Rightarrow> Inl err | Inr is \<Rightarrow> Inr (i # is)))"

text \<open>Lines 126 to 130: the entries of the result files that exist.\<close>

definition existing_result :: "'k repo \<Rightarrow> string \<Rightarrow> string list \<Rightarrow> string list \<Rightarrow> pydict list" where
  "existing_result rp model_name all_test_categories all_test_file_paths =
     (let model_name_dir = str_replace ''/'' ''_'' model_name
      in concat (map (\<lambda>(test_category, file_to_open).
                        case load_result_file rp model_name_dir
                               (str_replace ''.json'' ''_result.json'' file_to_open) of
                          None \<Rightarrow> []
                        | Some category_results \<Rightarrow> category_results)
                   (zip all_test_categories all_test_file_paths)))"

text \<open>
  Lines 137 to 141 only print, but \<^verbatim>\<open>t["id"].startswith(cat)\<close> is evaluated for every
  test entry, and raises when an entry has no id or an id that is not a string.
\<close>

fun startswith_all :: "pydict list \<Rightarrow> py_error option" where
  "startswith_all [] = None"
| "startswith_all (t # ts) =
     (case map_of t ''id'' of
        None \<Rightarrow> Some (KeyError ''id'')
      | Some (PStr s) \<Rightarrow> startswith_all ts
      | Some _ \<Rightarrow> Some AttributeError)"

text \<open>Lines 144 to 148: the test cases whose id is not among the existing ids.\<close>

fun pending :: "pyval list \<Rightarrow> pydict list \<Rightarrow> py_error + pydict list" where
  "pending existing_ids [] = Inr []"
| "pending existing_ids (tcase # rest) =
     (case map_of tcase ''id'' of
        None \<Rightarrow> Inl (KeyError ''id'')
      | Some i \<Rightarrow>
          (case pending existing_ids rest of
             Inl err \<Rightarrow> Inl err
           | Inr cases \<Rightarrow> Inr (if i \<notin> set existing_ids then tcase # cases else cases)))"

text \<open>process_multi_turn_test_case: the function documents of the involved classes.\<close>

fun load_docs :: "(pyval \<Rightarrow> py_error + pyval list) \<Rightarrow> pyval list \<Rightarrow> py_error + pyval list" where
  "load_docs ld [] = Inr []"
| "load_docs ld (func_collection # cs) =
     (case ld func_collection of
        Inl err \<Rightarrow> Inl err
      | Inr func_doc \<Rightarrow>
          (case load_docs ld cs of Inl err \<Rightarrow> Inl err | Inr docs \<Rightarrow> Inr (func_doc @ docs)))"

text \<open>
  The innermost loop: the first document with the given name is taken out of the list.
\<close>

fun pop_named :: "pyval \<Rightarrow> pyval list \<Rightarrow> py_error + (pyval option \<times> pyval list)" where
  "pop_named name [] = Inr (None, [])"
| "pop_named name (func_doc # docs) =
     (case func_doc of
        PDict d \<Rightarrow>
          (case map_of d ''name'' of
             None \<Rightarrow> Inl (KeyError ''name'')
           | Some n \<Rightarrow>
               if n = name then Inr (Some func_doc, docs)
               else (case pop_named name docs of
                       Inl err \<Rightarrow> Inl err
                     | Inr (found, rest) \<Rightarrow> Inr (found, func_doc # rest)))
      | _ \<Rightarrow> Inl TypeError)"

fun move_missed :: "pyval list \<Rightarrow> pyval list \<Rightarrow> pyval list \<Rightarrow> py_error + (pyval list \<times> pyval list)" where
  "move_missed [] missed fns = Inr (missed, fns)"
| "move_missed (missed_func_name # names) missed fns =
     (case pop_named missed_func_name fns of
        Inl err \<Rightarrow> Inl err
      | Inr (None, fns') \<Rightarrow> move_missed names missed fns'
      | Inr (Some func_doc, fns') \<Rightarrow> move_missed names (missed @ [func_doc]) fns')"

fun process_missed :: "pydict \<Rightarrow> pydict \<Rightarrow> pyval list \<Rightarrow> py_error + (pydict \<times> pyval list)" where
  "process_missed [] acc fns = Inr (acc, fns)"
| "process_missed ((turn_index, missed_func_names) # items) acc fns =
     (case missed_func_names of
        PList names \<Rightarrow>
          (case move_missed names [] fns of
             Inl err \<Rightarrow> Inl err
           | Inr (missed, fns') \<Rightarrow>
               process_missed items (AList.update turn_index (PList missed) acc) fns')
      | _ \<Rightarrow> Inl TypeError)"

text \<open>
  The body of the loop of process_multi_turn_test_case, for one entry. The involved classes
  are a list and the missed functions a dict of lists, as in the data files; any other
  value is a type error here.
\<close>

definition process_entry :: "'k repo \<Rightarrow> pydict \<Rightarrow> py_error + pydict" where
  "process_entry rp entry =
     (case map_of entry ''id'' of
        None \<Rightarrow> Inl (KeyError ''id'')
      | Some i \<Rightarrow>
          if \<not> is_multi_turn rp i then Inr entry
          else
            (case map_of entry ''involved_classes'' of
               None \<Rightarrow> Inl (KeyError ''involved_classes'')
             | Some (PList involved_classes) \<Rightarrow>
                 (case load_docs (load_func_doc rp) involved_classes of
                    Inl err \<Rightarrow> Inl err
                  | Inr fns \<Rightarrow>
                      (case map_of entry ''missed_function'' of
                         None \<Rightarrow> Inr (AList.update ''function'' (PList fns) entry)
                       | Some (PDict items) \<Rightarrow>
                           (case process_missed items items fns of
                              Inl err \<Rightarrow> Inl err
                            | Inr (missed, fns') \<Rightarrow>
                                Inr (AList.update ''missed_function'' (PDict missed)
                                       (AList.update ''function'' (PList fns') entry)))
                       | Some _ \<Rightarrow> Inl AttributeError))
             | Some _ \<Rightarrow> Inl TypeError))"

fun process_multi_turn_test_case :: "'k repo \<Rightarrow> pydict list \<Rightarrow> py_error + pydict list" where
  "process_multi_turn_test_case rp [] = Inr []"
| "process_multi_turn_test_case rp (entry # entries) =
     (case process_entry rp entry of
        Inl err \<Rightarrow> Inl err
      | Inr entry' \<Rightarrow>
          (case process_multi_turn_test_case rp entries of
             Inl err \<Rightarrow> Inl err
           | Inr entries' \<Rightarrow> Inr (entry' # entries')))"

definition collect_test_cases ::
  "('k::linorder) repo \<Rightarrow> string \<Rightarrow> string list \<Rightarrow> string list \<Rightarrow> pydict list
     \<Rightarrow> py_error + pydict list" where
  "collect_test_cases rp model_name all_test_categories all_test_file_paths
       all_test_entries_involved =
     (case ids_of (existing_result rp model_name all_test_categories all_test_file_paths) of
        Inl err \<Rightarrow> Inl err
      | Inr existing_ids \<Rightarrow>
          (case (if existing_ids \<noteq> [] then startswith_all all_test_entries_involved else None) of
             Some err \<Rightarrow> Inl err
           | None \<Rightarrow>
               (case pending existing_ids all_test_entries_involved of
                  Inl err \<Rightarrow> Inl err
                | Inr test_cases_to_generate \<Rightarrow>
                    (case process_multi_turn_test_case rp test_cases_to_generate of
                       Inl err \<Rightarrow> Inl err
                     | Inr cases \<Rightarrow> Inr (sort_key (sort_key_fn rp) cases)))))"

text \<open>
  The body of the last loop of \<^verbatim>\<open>main\<close>, for one model: what is printed and whether
  \<^verbatim>\<open>generate_results\<close> is called, and with which test cases.
\<close>

datatype action =
    MainRaised py_error
  | Report line
  | CallGenerateResults "pydict list"

definition main_for_model ::
  "('k::linorder) repo \<Rightarrow> string \<Rightarrow> string list \<Rightarrow> string list \<Rightarrow> pydict list \<Rightarrow> action" where
  "main_for_model rp model_name all_test_categories all_test_file_paths all_test_entries_involved =
     (case collect_test_cases rp model_name all_test_categories all_test_file_paths
             all_test_entries_involved of
        Inl err \<Rightarrow> MainRaised err
      | Inr test_cases_total \<Rightarrow>
          if length test_cases_total = 0 then Report NothingToGenerate
          else CallGenerateResults test_cases_total)"

section \<open>The stall watchdog\<close>

text \<open>\<^verbatim>\<open>int(x)\<close> on a float: truncation towards zero.\<close>

definition py_int :: "rat \<Rightarrow> int" where
  "py_int x = (if 0 \<le> x then \<lfloor>x\<rfloor> else \<lceil>x\<rceil>)"

datatype wevent =
    WSleep rat
  | SetEvent
  | ClearEvent

text \<open>
  The attributes that \<^verbatim>\<open>stall_watchdog\<close> keeps on itself (absent at first) and what it
  has done so far.
\<close>

record wstate =
  last_poke_time :: "int option"
  poke_count :: nat
  last_poke_timestamp :: "rat option"
  wtrace :: "wevent list"

text \<open>What the watchdog reads from the run, as functions of what it has done so far.\<close>

record wenv =
  get_active_count :: "wevent list \<Rightarrow> int"
  time_now :: "wevent list \<Rightarrow> rat"
  last_completion_time :: "wevent list \<Rightarrow> rat"

text \<open>One pass through the body of the watchdog's loop; the flag says whether it goes on.\<close>

definition watchdog_iteration :: "wenv \<Rightarrow> wstate \<Rightarrow> bool \<times> wstate" where
  "watchdog_iteration wv s =
     (let tr1 = wtrace s @ [WSleep 1];
          active = get_active_count wv tr1;
          s1 = s\<lparr>wtrace := tr1\<rparr>;
          s2 =
            (if 1 \<le> active \<and> active \<le> 8 then
               (let time_since_last_completion = time_now wv tr1 - last_completion_time wv tr1
                in if time_since_last_completion > 10 then
                     (if py_int time_since_last_completion mod 10 = 0 then
                        (let current_poke_time = py_int time_since_last_completion
                         in if last_poke_time s \<noteq> Some current_poke_time then
                              s1\<lparr>last_poke_time := Some current_poke_time,
                                 poke_count := poke_count s + 1,
                                 last_poke_timestamp := Some (time_now wv (tr1 @ [SetEvent])),
                                 wtrace := tr1 @ [SetEvent, WSleep (1/2), ClearEvent]\<rparr>
                            else s1)
                      else s1)
                   else s1)
             else s1)
      in (active \<noteq> 0, s2))"

fun stall_watchdog :: "nat \<Rightarrow> wenv \<Rightarrow> wstate \<Rightarrow> wstate option" where
  "stall_watchdog 0 wv s = None"
| "stall_watchdog (Suc n) wv s =
     (case watchdog_iteration wv s of
        (True, s') \<Rightarrow> stall_watchdog n wv s'
      | (False, s') \<Rightarrow> Some s')"

definition initial_wstate :: wstate where
  "initial_wstate =
     \<lparr>last_poke_time = None, poke_count = 0, last_poke_timestamp = None, wtrace = []\<rparr>"

section \<open>Well-formed test cases\<close>

text \<open>
  The three attached objects are stored only by \<^verbatim>\<open>generate_results\<close>: each of the keys is
  absent or holds the object that \<^verbatim>\<open>generate_results\<close> put there.
\<close>

definition attached_ok :: "pydict \<Rightarrow> bool" where
  "attached_ok tc =
     (map_of tc ''_stall_event'' \<in> {None, Some PEvent}
      \<and> map_of tc ''_increment_rate_limit'' \<in> {None, Some PIncrementRateLimit}
      \<and> map_of tc ''_get_active_count'' \<in> {None, Some PGetActiveCount})"

section \<open>Example inputs\<close>

text \<open>
  A test case with no functions, the state in which the loop of multi_threaded_inference
  starts on it once generate_results has attached the three objects, and an environment in
  which the \<open>k\<close>-th call of the inference client has the outcome \<open>f k\<close>, \<open>n\<close> futures
  are not done and the stall event is never set; \<open>always out\<close> is the client whose every
  call has the outcome \<open>out\<close>.
\<close>

definition example_job :: pydict where
  "example_job = [(''id'', PStr ''simple_0''), (''function'', PList [])]"

definition start_state :: "pydict \<Rightarrow> mstate" where
  "start_state tc = \<lparr>test_case = tc, retry_count = 0, rate_limit_count = 0, trace = []\<rparr>"

definition scripted :: "(nat \<Rightarrow> outcome) \<Rightarrow> int \<Rightarrow> env" where
  "scripted f n =
     \<lparr>inference = (\<lambda>tr c. f (invocations tr)), active_count = (\<lambda>tr. n),
      is_set = (\<lambda>tr. False), now = (\<lambda>tr. 0)\<rparr>"

definition always :: "outcome \<Rightarrow> nat \<Rightarrow> outcome" where
  "always out k = out"

definition rate_limited :: exn where
  "rate_limited =
     \<lparr>message = ''Too Many Requests'', status_code = Some 429, format_exc = ''Traceback''\<rparr>"

definition rate_limit_exceeded :: exn where
  "rate_limit_exceeded =
     \<lparr>message = ''Rate limit exceeded'', status_code = None, format_exc = ''Traceback''\<rparr>"

definition invalid_json :: exn where
  "invalid_json =
     \<lparr>message = ''Invalid JSON response'', status_code = None, format_exc = ''Traceback''\<rparr>"

definition filtered_429 :: exn where
  "filtered_429 =
     \<lparr>message = ''Error code: 429 - content_filter'', status_code = Some 429,
      format_exc = ''Traceback''\<rparr>"

definition filtered_400 :: exn where
  "filtered_400 =
     \<lparr>message = ''Error code: 400 - content_filter'', status_code = Some 400,
      format_exc = ''Traceback''\<rparr>"


definition write_ok :: writer where
  "write_ok calls r = None"

definition result_of :: "string \<Rightarrow> pydict" where
  "result_of i = [(''id'', PStr i), (''result'', PStr ''ok'')]"

section \<open>The classification as the specification words it\<close>

text \<open>
  The specification calls a failure transient when it carries HTTP status 429, 500 or 503,
  or its message has explicit "rate limit" phrasing, timeout phrasing or the provider's
  overload string. This is that sentence, to be compared with \<open>is_transient\<close>.
\<close>

definition spec_transient :: "exn \<Rightarrow> bool" where
  "spec_transient e =
     (status_code e \<in> {Some 429, Some 500, Some 503}
      \<or> substr ''rate limit'' (py_lower (message e))
      \<or> substr ''timeout'' (py_lower (message e))
      \<or> substr ''timed out'' (py_lower (message e))
      \<or> substr overload_str (message e))"

text \<open>
  A run seen by the watchdog in which three futures are not done and the last completion
  was 20.3 seconds before every reading of the clock.
\<close>

definition stalled :: wenv where
  "stalled =
     \<lparr>get_active_count = (\<lambda>tr. 3), time_now = (\<lambda>tr. 203 / 10),
      last_completion_time = (\<lambda>tr. 0)\<rparr>"

text \<open>
  A repository with one result file, which holds the result of \<^verbatim>\<open>simple_2\<close>; the sort key
  here is the length of the id, and no test is multi-turn.
\<close>

definition example_repo :: "int repo" where
  "example_repo =
     \<lparr>sort_key_fn = (\<lambda>tc. case map_of tc ''id'' of Some (PStr s) \<Rightarrow> int (length s) | _ \<Rightarrow> 0),
      is_multi_turn = (\<lambda>i. False),
      load_func_doc = (\<lambda>c. Inl (KeyError ''class'')),
      load_result_file = (\<lambda>dir file.
         if dir = ''openai_gpt-4'' \<and> file = ''BFCL_v3_simple_result.json''
         then Some [result_of ''simple_2''] else None)\<rparr>"

definition entry_of :: "string \<Rightarrow> pydict" where
  "entry_of i = [(''id'', PStr i), (''function'', PList [])]"

section \<open>Events\<close>

lemma sleeps_append: "sleeps (xs @ ys) = sleeps xs @ sleeps ys"
  by (induction xs rule: sleeps.induct) auto

lemma slept_append: "slept (xs @ ys) = slept xs + slept ys"
  by (simp add: slept_def sleeps_append)

lemma slept_Sleep: "slept [Sleep d] = d"
  by (simp add: slept_def)

lemma invocations_append: "invocations (xs @ ys) = invocations xs + invocations ys"
  by (simp add: invocations_def)

lemma invocations_Sleep: "invocations [Sleep d] = 0"
  by (simp add: invocations_def)

section \<open>The wait on the stall event\<close>

lemma stall_wait_invocations:
  "invocations (snd (stall_wait ev d el (tc, tr))) = invocations tr"
proof (induction ev d el "(tc, tr)" arbitrary: tr rule: stall_wait.induct)
  case (1 ev d elapsed tr)
  show ?case
    using "1.hyps" by (subst stall_wait.simps) (simp add: invocations_append invocations_Sleep)
qed

lemma stall_wait_slept_le:
  "slept (snd (stall_wait ev d el (tc, tr))) \<le> slept tr + max 0 (d - el)"
proof (induction ev d el "(tc, tr)" arbitrary: tr rule: stall_wait.induct)
  case (1 ev d elapsed tr)
  show ?case
  proof (cases "elapsed < d \<and> \<not> is_set ev tr")
    case True
    have "slept (snd (stall_wait ev d (elapsed + 1/2) (tc, tr @ [Sleep (min (1/2) (d - elapsed))])))
          \<le> slept (tr @ [Sleep (min (1/2) (d - elapsed))]) + max 0 (d - (elapsed + 1/2))"
      using "1.hyps" True by simp
    also have "\<dots> = slept tr + (d - elapsed)"
      using True by (simp add: slept_append slept_Sleep min_def max_def)
    finally show ?thesis
      using True by (subst stall_wait.simps) simp
  next
    case False
    then show ?thesis
      by (subst stall_wait.simps) (auto simp: max_def)
  qed
qed

lemma stall_wait_no_nudge:
  "\<forall>t. \<not> is_set ev t \<Longrightarrow>
     fst (stall_wait ev d el (tc, tr)) = tc
     \<and> slept (snd (stall_wait ev d el (tc, tr))) = slept tr + max 0 (d - el)"
proof (induction ev d el "(tc, tr)" arbitrary: tr rule: stall_wait.induct)
  case (1 ev d elapsed tr)
  show ?case
  proof (cases "elapsed < d")
    case True
    have ns: "\<not> is_set ev tr"
      using "1.prems" by simp
    let ?tr = "tr @ [Sleep (min (1/2) (d - elapsed))]"
    have ih: "fst (stall_wait ev d (elapsed + 1/2) (tc, ?tr)) = tc
          \<and> slept (snd (stall_wait ev d (elapsed + 1/2) (tc, ?tr)))
              = slept ?tr + max 0 (d - (elapsed + 1/2))"
      using "1.hyps" True ns "1.prems" by simp
    have "slept ?tr + max 0 (d - (elapsed + 1/2)) = slept tr + max 0 (d - elapsed)"
      using True by (simp add: slept_append slept_Sleep min_def max_def)
    with ih have "fst (stall_wait ev d (elapsed + 1/2) (tc, ?tr)) = tc
          \<and> slept (snd (stall_wait ev d (elapsed + 1/2) (tc, ?tr)))
              = slept tr + max 0 (d - elapsed)"
      by simp
    then show ?thesis
      using True ns by (subst (1 2) stall_wait.simps) simp
  next
    case False
    then show ?thesis
      by (subst (1 2) stall_wait.simps) (auto simp: max_def)
  qed
qed

lemma stall_wait_map_of:
  "k \<noteq> ''_last_poke_time'' \<Longrightarrow> map_of (fst (stall_wait ev d el (tc, tr))) k = map_of tc k"
proof (induction ev d el "(tc, tr)" arbitrary: tr rule: stall_wait.induct)
  case (1 ev d elapsed tr)
  show ?case
    using "1.hyps" "1.prems" by (subst stall_wait.simps) (simp add: update_conv')
qed

section \<open>The attached objects\<close>

lemma attached_ok_update:
  "k \<noteq> ''_stall_event'' \<Longrightarrow> k \<noteq> ''_increment_rate_limit'' \<Longrightarrow> k \<noteq> ''_get_active_count''
   \<Longrightarrow> attached_ok (AList.update k v tc) = attached_ok tc"
  by (simp add: attached_ok_def update_conv')

lemma map_of_pop:
  "map_of (snd (pop k d)) = (map_of d)(k := None)"
  by (auto simp: pop_def delete_conv' split: option.splits)

lemma fst_pop: "fst (pop k d) = (case map_of d k of None \<Rightarrow> PNone | Some v \<Rightarrow> v)"
  by (simp add: pop_def split: option.splits)

lemma map_of_copy:
  "map_of (snd (strip_and_copy tc)) =
     (map_of tc)(''_stall_event'' := None, ''_increment_rate_limit'' := None,
                 ''_get_active_count'' := None)"
  by (simp add: strip_and_copy_def Let_def split_beta map_of_pop)

lemma restore_conv:
  "map_of (if truthy v then AList.update k v d else d) =
     (if truthy v then (map_of d)(k \<mapsto> v) else map_of d)"
  by (simp add: update_conv')

lemma map_of_strip_other:
  "k \<noteq> ''_stall_event'' \<Longrightarrow> k \<noteq> ''_increment_rate_limit'' \<Longrightarrow> k \<noteq> ''_get_active_count''
   \<Longrightarrow> map_of (fst (strip_and_copy tc)) k = map_of tc k"
  by (simp add: strip_and_copy_def Let_def split_beta map_of_pop restore_conv update_conv')

lemma map_of_strip_stall:
  "map_of (fst (strip_and_copy tc)) ''_stall_event'' =
     (case map_of tc ''_stall_event'' of None \<Rightarrow> None
      | Some v \<Rightarrow> if truthy v then Some v else None)"
  by (simp add: strip_and_copy_def Let_def split_beta map_of_pop fst_pop restore_conv update_conv'
        split: option.split)

lemma map_of_strip_increment:
  "map_of (fst (strip_and_copy tc)) ''_increment_rate_limit'' =
     (case map_of tc ''_increment_rate_limit'' of None \<Rightarrow> None
      | Some v \<Rightarrow> if truthy v then Some v else None)"
  by (simp add: strip_and_copy_def Let_def split_beta map_of_pop fst_pop restore_conv update_conv'
        split: option.split)

lemma map_of_strip_active:
  "map_of (fst (strip_and_copy tc)) ''_get_active_count'' =
     (case map_of tc ''_get_active_count'' of None \<Rightarrow> None
      | Some v \<Rightarrow> if truthy v then Some v else None)"
  by (simp add: strip_and_copy_def Let_def split_beta map_of_pop fst_pop restore_conv update_conv'
        split: option.split)

lemma map_of_strip_attached:
  assumes "attached_ok tc"
  shows "map_of (fst (strip_and_copy tc)) = map_of tc"
proof (rule ext)
  fix k
  have "map_of tc ''_stall_event'' = None \<or> map_of tc ''_stall_event'' = Some PEvent"
    and "map_of tc ''_increment_rate_limit'' = None
         \<or> map_of tc ''_increment_rate_limit'' = Some PIncrementRateLimit"
    and "map_of tc ''_get_active_count'' = None
         \<or> map_of tc ''_get_active_count'' = Some PGetActiveCount"
    using assms by (simp_all add: attached_ok_def)
  then show "map_of (fst (strip_and_copy tc)) k = map_of tc k"
    using map_of_strip_other [of k tc] map_of_strip_stall [of tc]
      map_of_strip_increment [of tc] map_of_strip_active [of tc]
    by (cases "k = ''_stall_event''"; cases "k = ''_increment_rate_limit''";
        cases "k = ''_get_active_count''") auto
qed

lemma attached_ok_cong: "map_of tc' = map_of tc \<Longrightarrow> attached_ok tc' = attached_ok tc"
  by (simp add: attached_ok_def)

lemma call_increment_ok:
  "attached_ok tc \<Longrightarrow>
   call_increment tc tr =
     Inr (if map_of tc ''_increment_rate_limit'' = None then tr else tr @ [IncrementRL])"
  by (auto simp: call_increment_def attached_ok_def split: option.splits pyval.splits)

lemma get_active_test_count_ok:
  "attached_ok tc \<Longrightarrow>
   get_active_test_count ev tc tr =
     Inr (if map_of tc ''_get_active_count'' = None then 999 else active_count ev tr)"
  by (auto simp: get_active_test_count_def attached_ok_def split: option.splits pyval.splits)

lemma backoff_ok:
  "attached_ok tc \<Longrightarrow>
   backoff ev d (tc, tr) =
     Inr (if map_of tc ''_stall_event'' = None then (tc, tr @ [Sleep (of_int d)])
          else stall_wait ev (of_int d) 0 (tc, tr))"
  by (auto simp: backoff_def attached_ok_def split: option.splits)

section \<open>One attempt\<close>

lemma handle_exception_transient:
  assumes "is_transient e" and "attached_ok (test_case s)" and "map_of (test_case s) ''id'' = Some i"
  shows "handle_exception ev e s =
     (let tc2 = AList.update ''_last_retry_time'' (PFloat (now ev (trace s)))
                  (AList.update ''_rate_limit_count'' (PInt (int (rate_limit_count s + 1)))
                     (test_case s));
          tr1 = (if map_of (test_case s) ''_increment_rate_limit'' = None then trace s
                 else trace s @ [IncrementRL]);
          d = dynamic_delay (if map_of (test_case s) ''_get_active_count'' = None then 999
                             else active_count ev tr1);
          p = (if is_timeout e then (tc2, tr1)
               else if map_of (test_case s) ''_stall_event'' = None
                 then (tc2, tr1 @ [Sleep (of_int d)])
               else stall_wait ev (of_int d) 0 (tc2, tr1))
      in Retry (s\<lparr>test_case := fst p, retry_count := retry_count s + 1,
                  rate_limit_count := rate_limit_count s + 1, trace := snd p\<rparr>))"
  using assms
  by (simp add: handle_exception_def Let_def call_increment_ok get_active_test_count_ok
      backoff_ok attached_ok_update update_conv' split_beta)

lemma handle_exception_fatal:
  "\<not> is_transient e \<Longrightarrow> map_of (test_case s) ''id'' = Some i
   \<Longrightarrow> handle_exception ev e s = Finished (Inr (error_result i e)) s"
  by (simp add: handle_exception_def)

lemma invocations_simps:
  "invocations [] = 0"
  "invocations (Sleep d # tr) = invocations tr"
  "invocations (IncrementRL # tr) = invocations tr"
  "invocations (Infer c # tr) = Suc (invocations tr)"
  by (simp_all add: invocations_def)

lemma handle_exception_retry:
  assumes "is_transient e" and "attached_ok (test_case s)" and "map_of (test_case s) ''id'' = Some i"
  shows "\<exists>s'. handle_exception ev e s = Retry s'
           \<and> rate_limit_count s' = rate_limit_count s + 1
           \<and> invocations (trace s') = invocations (trace s)
           \<and> (\<forall>k. k \<noteq> ''_rate_limit_count'' \<longrightarrow> k \<noteq> ''_last_retry_time''
                  \<longrightarrow> k \<noteq> ''_last_poke_time''
                  \<longrightarrow> map_of (test_case s') k = map_of (test_case s) k)"
  unfolding handle_exception_transient [OF assms]
  by (simp add: Let_def update_conv' invocations_append invocations_simps
      stall_wait_map_of stall_wait_invocations)

lemma attached_ok_keys:
  assumes "\<forall>k. k \<noteq> ''_rate_limit_count'' \<longrightarrow> k \<noteq> ''_last_retry_time''
              \<longrightarrow> k \<noteq> ''_last_poke_time'' \<longrightarrow> map_of tc' k = map_of tc k"
  shows "attached_ok tc' = attached_ok tc"
proof -
  have "map_of tc' ''_stall_event'' = map_of tc ''_stall_event''"
    "map_of tc' ''_increment_rate_limit'' = map_of tc ''_increment_rate_limit''"
    "map_of tc' ''_get_active_count'' = map_of tc ''_get_active_count''"
    using assms by simp_all
  then show ?thesis
    by (simp add: attached_ok_def)
qed

lemma attempt_raises:
  "inference ev (trace s) (snd (strip_and_copy (test_case s))) = Raises e \<Longrightarrow>
   attempt ev s =
     handle_exception ev e
       (s\<lparr>test_case := fst (strip_and_copy (test_case s)),
          trace := trace s @ [Infer (snd (strip_and_copy (test_case s)))]\<rparr>)"
  by (simp add: attempt_def split_beta Let_def)

lemma attempt_returns:
  "inference ev (trace s) (snd (strip_and_copy (test_case s))) = Returns result metadata \<Longrightarrow>
   map_of (test_case s) ''id'' = Some i \<Longrightarrow>
   attempt ev s =
     Finished (Inr (success_result i result metadata (rate_limit_count s)))
       (s\<lparr>test_case := fst (strip_and_copy (test_case s)),
          trace := trace s @ [Infer (snd (strip_and_copy (test_case s)))]\<rparr>)"
  by (simp add: attempt_def split_beta Let_def map_of_strip_other)

lemma attempt_fatal:
  assumes "inference ev (trace s) (snd (strip_and_copy (test_case s))) = Raises e"
    and "\<not> is_transient e" and "map_of (test_case s) ''id'' = Some i"
  shows "attempt ev s =
     Finished (Inr (error_result i e))
       (s\<lparr>test_case := fst (strip_and_copy (test_case s)),
          trace := trace s @ [Infer (snd (strip_and_copy (test_case s)))]\<rparr>)"
  unfolding attempt_raises [OF assms(1)]
  by (rule handle_exception_fatal) (simp_all add: assms map_of_strip_other)

lemma attempt_transient:
  assumes "inference ev (trace s) (snd (strip_and_copy (test_case s))) = Raises e"
    and "is_transient e" and "attached_ok (test_case s)" and "map_of (test_case s) ''id'' = Some i"
  shows "\<exists>s'. attempt ev s = Retry s'
           \<and> rate_limit_count s' = rate_limit_count s + 1
           \<and> invocations (trace s') = invocations (trace s) + 1
           \<and> (\<forall>k. k \<noteq> ''_rate_limit_count'' \<longrightarrow> k \<noteq> ''_last_retry_time''
                  \<longrightarrow> k \<noteq> ''_last_poke_time''
                  \<longrightarrow> map_of (test_case s') k = map_of (test_case s) k)"
proof -
  let ?s1 = "s\<lparr>test_case := fst (strip_and_copy (test_case s)),
               trace := trace s @ [Infer (snd (strip_and_copy (test_case s)))]\<rparr>"
  have m: "map_of (test_case ?s1) = map_of (test_case s)"
    using assms(3) by (simp add: map_of_strip_attached)
  have ok: "attached_ok (test_case ?s1)"
    using assms(3) attached_ok_cong [OF m] by simp
  have idp: "map_of (test_case ?s1) ''id'' = Some i"
    using assms(4) m by simp
  from handle_exception_retry [OF assms(2) ok idp, of ev]
  obtain s' where s': "handle_exception ev e ?s1 = Retry s'"
      "rate_limit_count s' = rate_limit_count ?s1 + 1"
      "invocations (trace s') = invocations (trace ?s1)"
      "\<forall>k. k \<noteq> ''_rate_limit_count'' \<longrightarrow> k \<noteq> ''_last_retry_time''
            \<longrightarrow> k \<noteq> ''_last_poke_time''
            \<longrightarrow> map_of (test_case s') k = map_of (test_case ?s1) k"
    by blast
  show ?thesis
    using s' m by (simp add: attempt_raises [OF assms(1)] invocations_append invocations_simps)
qed

section \<open>The retry delay\<close>

lemma sleeps_simps:
  "sleeps [Infer c] = []" "sleeps [IncrementRL] = []" "sleeps [Sleep d] = [d]"
  by simp_all

lemma slept_simps:
  "slept [] = 0"
  "slept (Sleep d # tr) = d + slept tr"
  "slept (IncrementRL # tr) = slept tr"
  "slept (Infer c # tr) = slept tr"
  by (simp_all add: slept_def)

lemma dynamic_delay_nonneg: "0 \<le> dynamic_delay n"
  by (simp add: dynamic_delay_def RETRY_DELAY_def)


text \<open>What a transient failure adds to the time slept, in terms of the delay computed.\<close>

lemma attempt_transient_sleep:
  assumes "inference ev (trace s) (snd (strip_and_copy (test_case s))) = Raises e"
    and "is_transient e" and "attached_ok (test_case s)" and "map_of (test_case s) ''id'' = Some i"
  shows "\<exists>s' tr1. attempt ev s = Retry s'
           \<and> (is_timeout e \<longrightarrow> sleeps (trace s') = sleeps (trace s))
           \<and> (\<not> is_timeout e \<longrightarrow>
                (let d = dynamic_delay (if map_of (test_case s) ''_get_active_count'' = None
                                        then 999 else active_count ev tr1)
                 in slept (trace s') \<le> slept (trace s) + of_int d
                    \<and> (map_of (test_case s) ''_stall_event'' = None \<or> (\<forall>t. \<not> is_set ev t)
                        \<longrightarrow> slept (trace s') = slept (trace s) + of_int d)))"
proof -
  define s1 where "s1 = s\<lparr>test_case := fst (strip_and_copy (test_case s)),
               trace := trace s @ [Infer (snd (strip_and_copy (test_case s)))]\<rparr>"
  have m: "map_of (test_case s1) = map_of (test_case s)"
    using assms(3) by (simp add: s1_def map_of_strip_attached)
  have ok: "attached_ok (test_case s1)"
    using assms(3) attached_ok_cong [OF m] by simp
  have idp: "map_of (test_case s1) ''id'' = Some i"
    using assms(4) m by simp
  define tc2 where "tc2 = AList.update ''_last_retry_time'' (PFloat (now ev (trace s1)))
                  (AList.update ''_rate_limit_count'' (PInt (int (rate_limit_count s1 + 1)))
                     (test_case s1))"
  define tr1 where "tr1 = (if map_of (test_case s1) ''_increment_rate_limit'' = None
                           then trace s1 else trace s1 @ [IncrementRL])"
  define d where "d = dynamic_delay (if map_of (test_case s1) ''_get_active_count'' = None
                                     then 999 else active_count ev tr1)"
  define p where "p = (if is_timeout e then (tc2, tr1)
               else if map_of (test_case s1) ''_stall_event'' = None
                 then (tc2, tr1 @ [Sleep (of_int d)])
               else stall_wait ev (of_int d) 0 (tc2, tr1))"
  define s' where "s' = s1\<lparr>test_case := fst p, retry_count := retry_count s1 + 1,
                  rate_limit_count := rate_limit_count s1 + 1, trace := snd p\<rparr>"
  have step: "attempt ev s = Retry s'"
    unfolding attempt_raises [OF assms(1)] s1_def [symmetric]
      handle_exception_transient [OF assms(2) ok idp]
    by (simp add: Let_def s'_def p_def d_def tr1_def tc2_def)
  have d0: "(0::rat) \<le> of_int d"
    by (simp add: d_def dynamic_delay_nonneg)
  have str1: "slept tr1 = slept (trace s)" "sleeps tr1 = sleeps (trace s)"
    by (simp_all add: tr1_def s1_def slept_append slept_simps sleeps_append)
  have tmo: "sleeps (trace s') = sleeps (trace s)" if "is_timeout e"
    using that str1 by (simp add: s'_def p_def)
  have le: "slept (trace s') \<le> slept (trace s) + of_int d" if "\<not> is_timeout e"
  proof (cases "map_of (test_case s1) ''_stall_event'' = None")
    case True
    then show ?thesis
      using that str1 by (simp add: s'_def p_def slept_append slept_simps)
  next
    case False
    then show ?thesis
      using that stall_wait_slept_le [of ev "of_int d" 0 tc2 tr1] d0 str1
      by (auto simp: s'_def p_def max_def)
  qed
  have eq: "slept (trace s') = slept (trace s) + of_int d"
    if "\<not> is_timeout e" and "map_of (test_case s) ''_stall_event'' = None \<or> (\<forall>t. \<not> is_set ev t)"
  proof (cases "map_of (test_case s1) ''_stall_event'' = None")
    case True
    then show ?thesis
      using that str1 by (simp add: s'_def p_def slept_append slept_simps)
  next
    case False
    then have "\<forall>t. \<not> is_set ev t"
      using that(2) m by auto
    from stall_wait_no_nudge [OF this, of "of_int d" 0 tc2 tr1] False that(1) d0 str1
    show ?thesis
      by (auto simp: s'_def p_def max_def)
  qed
  have dd: "d = dynamic_delay (if map_of (test_case s) ''_get_active_count'' = None
                               then 999 else active_count ev tr1)"
    using m by (simp add: d_def)
  show ?thesis
    apply (rule exI [of _ s'])
    apply (rule exI [of _ tr1])
    using step tmo le eq unfolding dd Let_def by blast
qed

section \<open>The retry loop\<close>

lemma map_of_dict_update:
  "map_of m k = None \<Longrightarrow> map_of (dict_update d m) k = map_of d k"
  unfolding dict_update_def
proof (induction m arbitrary: d)
  case Nil
  then show ?case by simp
next
  case (Cons p m)
  obtain k' v where p: "p = (k', v)"
    by (cases p)
  from Cons.prems p have ne: "k' \<noteq> k" and rest: "map_of m k = None"
    by (auto split: if_splits)
  show ?case
    using Cons.IH [OF rest, of "AList.update k' v d"] ne by (simp add: p update_conv')
qed

lemma success_result_id:
  "map_of metadata ''id'' = None \<Longrightarrow> map_of (success_result i result metadata n) ''id'' = Some i"
  by (simp add: success_result_def Let_def map_of_dict_update update_conv')

lemma error_result_id: "map_of (error_result i e) ''id'' = Some i"
  by (simp add: error_result_def)

text \<open>Whatever an attempt does, it either goes on with a well-formed test case or finishes
  with a result for the same id.\<close>

lemma attempt_cases:
  assumes "attached_ok (test_case s)" and "map_of (test_case s) ''id'' = Some i"
  shows "(\<exists>s'. attempt ev s = Retry s' \<and> attached_ok (test_case s')
                \<and> map_of (test_case s') ''id'' = Some i
                \<and> invocations (trace s') = invocations (trace s) + 1)
         \<or> (\<exists>e s'. inference ev (trace s) (snd (strip_and_copy (test_case s))) = Raises e
                \<and> \<not> is_transient e
                \<and> attempt ev s = Finished (Inr (error_result i e)) s'
                \<and> invocations (trace s') = invocations (trace s) + 1)
         \<or> (\<exists>result metadata s'.
                inference ev (trace s) (snd (strip_and_copy (test_case s))) = Returns result metadata
                \<and> attempt ev s = Finished (Inr (success_result i result metadata (rate_limit_count s))) s'
                \<and> invocations (trace s') = invocations (trace s) + 1)"
proof (cases "inference ev (trace s) (snd (strip_and_copy (test_case s)))")
  case (Returns result metadata)
  show ?thesis
    using attempt_returns [OF Returns assms(2)] Returns
    by (simp add: invocations_append invocations_simps)
next
  case (Raises e)
  show ?thesis
  proof (cases "is_transient e")
    case True
    from attempt_transient [OF Raises True assms]
    obtain s' where s': "attempt ev s = Retry s'"
      "invocations (trace s') = invocations (trace s) + 1"
      "\<forall>k. k \<noteq> ''_rate_limit_count'' \<longrightarrow> k \<noteq> ''_last_retry_time''
            \<longrightarrow> k \<noteq> ''_last_poke_time''
            \<longrightarrow> map_of (test_case s') k = map_of (test_case s) k"
      by blast
    have "attached_ok (test_case s')"
      using attached_ok_keys [OF s'(3)] assms(1) by simp
    moreover have "map_of (test_case s') ''id'' = Some i"
      using s'(3) assms(2) by simp
    ultimately show ?thesis
      using s'(1,2) by simp
  next
    case False
    show ?thesis
      using attempt_fatal [OF Raises False assms(2)] Raises False
      by (simp add: invocations_append invocations_simps)
  qed
qed

lemma run_attempts_id:
  assumes "\<forall>tr c result metadata. inference ev tr c = Returns result metadata
             \<longrightarrow> map_of metadata ''id'' = None"
  shows "attached_ok (test_case s) \<Longrightarrow> map_of (test_case s) ''id'' = Some i
         \<Longrightarrow> run_attempts fuel ev s = Some (r, s')
         \<Longrightarrow> \<exists>d. r = Inr d \<and> map_of d ''id'' = Some i"
proof (induction fuel arbitrary: s)
  case 0
  then show ?case by simp
next
  case (Suc fuel)
  from attempt_cases [OF Suc.prems(1,2), of ev]
  consider (retry) s1 where "attempt ev s = Retry s1" "attached_ok (test_case s1)"
      "map_of (test_case s1) ''id'' = Some i"
    | (fatal) e s1 where "attempt ev s = Finished (Inr (error_result i e)) s1"
    | (success) result metadata s1 where
      "inference ev (trace s) (snd (strip_and_copy (test_case s))) = Returns result metadata"
      "attempt ev s = Finished (Inr (success_result i result metadata (rate_limit_count s))) s1"
    by blast
  then show ?case
  proof cases
    case retry
    then show ?thesis
      using Suc.IH [of s1] Suc.prems(3) by simp
  next
    case fatal
    then show ?thesis
      using Suc.prems(3) by (auto simp: error_result_id)
  next
    case success
    then have "map_of metadata ''id'' = None"
      using assms by blast
    then show ?thesis
      using success Suc.prems(3) by (auto simp: success_result_id)
  qed
qed

lemma run_attempts_after_failures:
  assumes out: "\<forall>e. out = Raises e \<longrightarrow> \<not> is_transient e"
  shows "attached_ok (test_case s) \<Longrightarrow> map_of (test_case s) ''id'' = Some i
    \<Longrightarrow> \<forall>tr c. invocations (trace s) \<le> invocations tr \<and> invocations tr < invocations (trace s) + k
          \<longrightarrow> (\<exists>e. inference ev tr c = Raises e \<and> is_transient e)
    \<Longrightarrow> \<forall>tr c. invocations tr = invocations (trace s) + k \<longrightarrow> inference ev tr c = out
    \<Longrightarrow> k < fuel
    \<Longrightarrow> \<exists>s'. run_attempts fuel ev s =
            Some (Inr (case out of
                         Returns result metadata \<Rightarrow>
                           success_result i result metadata (rate_limit_count s + k)
                       | Raises e \<Rightarrow> error_result i e), s')
          \<and> invocations (trace s') = invocations (trace s) + k + 1"
proof (induction k arbitrary: s fuel)
  case 0
  then obtain f where fuel: "fuel = Suc f"
    by (cases fuel) auto
  have o: "inference ev (trace s) (snd (strip_and_copy (test_case s))) = out"
    using "0.prems"(4) by simp
  show ?case
  proof (cases out)
    case (Returns result metadata)
    then show ?thesis
      using attempt_returns [OF o [unfolded Returns] "0.prems"(2)]
      by (simp add: fuel invocations_append invocations_simps)
  next
    case (Raises e)
    then have "\<not> is_transient e"
      using out by simp
    then show ?thesis
      using attempt_fatal [OF o [unfolded Raises] _ "0.prems"(2)] Raises
      by (simp add: fuel invocations_append invocations_simps)
  qed
next
  case (Suc k)
  then obtain f where fuel: "fuel = Suc f" and kf: "k < f"
    by (cases fuel) auto
  from Suc.prems(3) obtain e where
    e: "inference ev (trace s) (snd (strip_and_copy (test_case s))) = Raises e" "is_transient e"
    by (metis add_Suc_right le_refl less_add_Suc1)
  from attempt_transient [OF e Suc.prems(1,2)]
  obtain s1 where s1: "attempt ev s = Retry s1"
      "rate_limit_count s1 = rate_limit_count s + 1"
      "invocations (trace s1) = invocations (trace s) + 1"
      "\<forall>k. k \<noteq> ''_rate_limit_count'' \<longrightarrow> k \<noteq> ''_last_retry_time''
            \<longrightarrow> k \<noteq> ''_last_poke_time''
            \<longrightarrow> map_of (test_case s1) k = map_of (test_case s) k"
    by blast
  have ok1: "attached_ok (test_case s1)"
    using attached_ok_keys [OF s1(4)] Suc.prems(1) by simp
  have id1: "map_of (test_case s1) ''id'' = Some i"
    using s1(4) Suc.prems(2) by simp
  have fail1: "\<forall>tr c. invocations (trace s1) \<le> invocations tr
                 \<and> invocations tr < invocations (trace s1) + k
          \<longrightarrow> (\<exists>e. inference ev tr c = Raises e \<and> is_transient e)"
    using Suc.prems(3) s1(3) by simp
  have out1: "\<forall>tr c. invocations tr = invocations (trace s1) + k \<longrightarrow> inference ev tr c = out"
    using Suc.prems(4) s1(3) by simp
  have rl: "rate_limit_count s1 + k = rate_limit_count s + Suc k"
    and inv: "invocations (trace s1) + k + 1 = invocations (trace s) + Suc k + 1"
    using s1(2,3) by simp_all
  from Suc.IH [OF ok1 id1 fail1 out1 kf]
  show ?case
    unfolding rl inv using s1(1) by (simp add: fuel)
qed

lemma multi_threaded_inference_run:
  "map_of tc ''function'' = Some (PList fs) \<Longrightarrow>
   multi_threaded_inference fuel ev tc tr =
     run_attempts fuel ev
       \<lparr>test_case = AList.update ''_rate_limit_count'' (PInt 0)
                      (AList.update ''_processing_start_time'' (PFloat (now ev tr)) tc),
        retry_count = 0, rate_limit_count = 0, trace = tr\<rparr>"
  by (simp add: multi_threaded_inference_def Let_def update_conv')

lemma substr_sublist: "substr p s = sublist p s"
  by (induction s) (auto simp: sublist_Cons_right)

lemma substr_trans: "substr p q \<Longrightarrow> substr q s \<Longrightarrow> substr p s"
  unfolding substr_sublist sublist_def by (metis append.assoc)

lemma is_transient_iff:
  "is_transient e \<longleftrightarrow>
     (status_code e = Some 429 \<or> status_code e = Some 500 \<or> status_code e = Some 503
      \<or> substr ''rate limit reached'' (py_lower (message e))
      \<or> substr ''timeout'' (py_lower (message e))
      \<or> substr ''timed out'' (py_lower (message e))
      \<or> substr overload_str (message e)
      \<or> substr ''relay error'' (py_lower (message e)))"
proof -
  have "substr ''timed out'' ''read timed out''"
    by simp
  then have "substr ''read timed out'' x \<Longrightarrow> substr ''timed out'' x" for x
    by (rule substr_trans)
  then show ?thesis
    by (auto simp: is_transient_def Let_def split: option.splits)
qed

lemma multi_threaded_inference_after_failures:
  assumes "attached_ok tc"
    and "map_of tc ''id'' = Some i"
    and "map_of tc ''function'' = Some (PList fs)"
    and "\<forall>tr c. invocations tr < k \<longrightarrow> (\<exists>e. inference ev tr c = Raises e \<and> is_transient e)"
    and "\<forall>tr c. invocations tr = k \<longrightarrow> inference ev tr c = out"
    and "\<forall>e. out = Raises e \<longrightarrow> \<not> is_transient e"
    and "k < fuel"
  shows "\<exists>s'. multi_threaded_inference fuel ev tc [] =
            Some (Inr (case out of
                         Returns result metadata \<Rightarrow> success_result i result metadata k
                       | Raises e \<Rightarrow> error_result i e), s')
          \<and> invocations (trace s') = k + 1"
proof -
  let ?s = "\<lparr>test_case = AList.update ''_rate_limit_count'' (PInt 0)
                      (AList.update ''_processing_start_time'' (PFloat (now ev [])) tc),
        retry_count = 0, rate_limit_count = 0, trace = []\<rparr>"
  have ok: "attached_ok (test_case ?s)"
    using assms(1) by (simp add: attached_ok_update)
  have idp: "map_of (test_case ?s) ''id'' = Some i"
    using assms(2) by (simp add: update_conv')
  have inv0: "invocations (trace ?s) = 0"
    by (simp add: invocations_simps)
  have fail: "\<forall>tr c. invocations (trace ?s) \<le> invocations tr
                 \<and> invocations tr < invocations (trace ?s) + k
          \<longrightarrow> (\<exists>e. inference ev tr c = Raises e \<and> is_transient e)"
    using assms(4) unfolding inv0 by simp
  have out: "\<forall>tr c. invocations tr = invocations (trace ?s) + k \<longrightarrow> inference ev tr c = out"
    using assms(5) unfolding inv0 by simp
  from run_attempts_after_failures [OF assms(6) ok idp fail out assms(7)]
  obtain s' where s': "run_attempts fuel ev ?s =
            Some (Inr (case out of
                         Returns result metadata \<Rightarrow>
                           success_result i result metadata (rate_limit_count ?s + k)
                       | Raises e \<Rightarrow> error_result i e), s')"
      "invocations (trace s') = invocations (trace ?s) + k + 1"
    by blast
  show ?thesis
    unfolding multi_threaded_inference_run [OF assms(3)]
    using s' by (intro exI [of _ s']) (cases out; simp add: invocations_simps)
qed

section \<open>Processing a completed future\<close>

lemma map_of_delete_if:
  "map_of (if map_of r f \<noteq> None then AList.delete f r else r) k
     = (if k = f then None else map_of r k)"
  by (auto simp: delete_conv')

lemma map_of_fold_delete:
  "map_of (fold (\<lambda>f r. if map_of r f \<noteq> None then AList.delete f r else r) fs r) k
     = (if k \<in> set fs then None else map_of r k)"
proof (induction fs arbitrary: r)
  case Nil
  then show ?case by simp
next
  case (Cons f fs)
  show ?case
    unfolding fold_simps o_apply Cons.IH map_of_delete_if by auto
qed

lemma map_of_strip_internal:
  "map_of (strip_internal r) k =
     (if k = ''_rate_limit_count'' \<or> k = ''_increment_rate_limit''
         \<or> k = ''_get_active_count'' \<or> k = ''_stall_event''
         \<or> k = ''_processing_start_time''
      then None else map_of r k)"
  unfolding strip_internal_def map_of_fold_delete by simp

lemma map_of_count_error_type:
  "map_of (snd (count_error_type cf r)) k = (if k = ''_error_type'' then None else map_of r k)"
  by (auto simp: count_error_type_def delete_conv' split: option.splits)

lemma fst_count_error_type:
  "fst (count_error_type cf r) =
     (if map_of r ''_error_type'' = Some (PStr ''content_filter'') then cf + 1 else cf)"
  by (auto simp: count_error_type_def split: option.splits)

lemma snd_count_error_type: "snd (count_error_type cf r) = snd (count_error_type 0 r)"
  by (simp add: count_error_type_def split: option.splits)

lemma map_of_persisted:
  "map_of (persisted r) k =
     (if k = ''_error_type'' \<or> k = ''_rate_limit_count'' \<or> k = ''_increment_rate_limit''
         \<or> k = ''_get_active_count'' \<or> k = ''_stall_event''
         \<or> k = ''_processing_start_time''
      then None else map_of r k)"
  unfolding persisted_def map_of_strip_internal map_of_count_error_type by simp

lemma process_future_Inr:
  "process_future w g (Inr r) =
     (let g1 = g\<lparr>content_filter_count :=
                    (if map_of r ''_error_type'' = Some (PStr ''content_filter'')
                     then content_filter_count g + 1 else content_filter_count g),
                  write_calls := write_calls g @ [persisted r]\<rparr>
      in case w (write_calls g) (persisted r) of
           Some msg \<Rightarrow> (Some (WriteFailed msg), g1)
         | None \<Rightarrow> (None, g1\<lparr>written := written g @ [persisted r]\<rparr>))"
proof -
  obtain cf r1 where c: "count_error_type (content_filter_count g) r = (cf, r1)"
    by (cases "count_error_type (content_filter_count g) r")
  have cf: "cf = (if map_of r ''_error_type'' = Some (PStr ''content_filter'')
                  then content_filter_count g + 1 else content_filter_count g)"
    using fst_count_error_type [of "content_filter_count g" r] c by simp
  have r1: "strip_internal r1 = persisted r"
    using snd_count_error_type [of "content_filter_count g" r] c by (simp add: persisted_def)
  show ?thesis
    by (simp add: process_future_def c Let_def r1 cf split: option.splits)
qed

lemma process_future_Inl: "process_future w g (Inl err) = (Some (WorkerRaised err), g)"
  by (simp add: process_future_def)

lemma process_future_effect:
  assumes "process_future w g fut = (fl, g')"
  shows "printed g' = printed g"
    and "fl \<noteq> None \<Longrightarrow> written g' = written g"
    and "length (write_calls g') \<le> Suc (length (write_calls g))"
    and "p \<in> set (write_calls g') \<Longrightarrow> p \<in> set (write_calls g) \<or> (\<exists>r. p = persisted r)"
  using assms
  by (cases fut; auto simp: process_future_Inr process_future_Inl Let_def split: option.splits)+


lemma as_completed_loop_write_calls:
  "as_completed_loop w g futs = r \<Longrightarrow> r = Completed g' \<or> r = SysExit c g'
   \<Longrightarrow> p \<in> set (write_calls g')
   \<Longrightarrow> p \<in> set (write_calls g) \<or> (\<exists>res. p = persisted res)"
proof (induction futs arbitrary: g)
  case Nil
  then show ?case by auto
next
  case (Cons fut futs)
  obtain fl g1 where pf: "process_future w g fut = (fl, g1)"
    by (cases "process_future w g fut")
  note eff = process_future_effect(4) [OF pf]
  show ?case
  proof (cases fl)
    case None
    then have "as_completed_loop w g1 futs = r"
      using Cons.prems(1) by (simp add: pf)
    from Cons.IH [OF this Cons.prems(2,3)] eff show ?thesis
      by blast
  next
    case (Some f)
    then have "r = SysExit 1 (g1\<lparr>printed := printed g1 @ [CriticalError f, AbortingProgram]\<rparr>)"
      using Cons.prems(1) by (simp add: pf)
    then have "write_calls g' = write_calls g1"
      using Cons.prems(2) by auto
    then show ?thesis
      using Cons.prems(3) eff by simp
  qed
qed


lemma as_completed_loop_completed:
  "as_completed_loop w g futs = Completed g' \<Longrightarrow>
   \<exists>rs. futs = map Inr rs
      \<and> write_calls g' = write_calls g @ map persisted rs
      \<and> written g' = written g @ map persisted rs
      \<and> printed g' = printed g"
proof (induction futs arbitrary: g)
  case Nil
  then show ?case by simp
next
  case (Cons fut futs)
  obtain fl g1 where pf: "process_future w g fut = (fl, g1)"
    by (cases "process_future w g fut")
  from Cons.prems have fl: "fl = None" and rest: "as_completed_loop w g1 futs = Completed g'"
    by (cases fl; simp add: pf)+
  from pf fl obtain r where r: "fut = Inr r"
    by (cases fut) (auto simp: process_future_Inl)
  from pf fl have g1: "write_calls g1 = write_calls g @ [persisted r]"
      "written g1 = written g @ [persisted r]" "printed g1 = printed g"
    unfolding r by (auto simp: process_future_Inr Let_def split: option.splits)
  from Cons.IH [OF rest] obtain rs where rs: "futs = map Inr rs"
      "write_calls g' = write_calls g1 @ map persisted rs"
      "written g' = written g1 @ map persisted rs" "printed g' = printed g1"
    by blast
  have "fut # futs = map Inr (r # rs)"
    using r rs(1) by simp
  then show ?case
    using rs(2-4) g1 by (intro exI [of _ "r # rs"]) simp
qed

section \<open>Collecting the test cases\<close>

lemma pending_filter:
  "pending existing entries = Inr pend \<Longrightarrow>
   map (\<lambda>tc. map_of tc ''id'') pend
     = filter (\<lambda>i. i \<notin> Some ` set existing) (map (\<lambda>tc. map_of tc ''id'') entries)
   \<and> pend = filter (\<lambda>tc. map_of tc ''id'' \<notin> Some ` set existing) entries"
proof (induction entries arbitrary: pend)
  case Nil
  then show ?case by simp
next
  case (Cons tc entries)
  from Cons.prems obtain i rest where i: "map_of tc ''id'' = Some i"
    and rest: "pending existing entries = Inr rest"
    and pend: "pend = (if i \<notin> set existing then tc # rest else rest)"
    by (auto split: option.splits sum.splits)
  from Cons.IH [OF rest] show ?case
    using i pend by auto
qed

lemma process_entry_id:
  "process_entry rp entry = Inr entry' \<Longrightarrow> map_of entry' ''id'' = map_of entry ''id''"
  by (auto simp: process_entry_def update_conv'
      split: option.splits if_splits pyval.splits sum.splits prod.splits)

lemma process_entry_single_turn:
  "map_of entry ''id'' = Some i \<Longrightarrow> \<not> is_multi_turn rp i \<Longrightarrow> process_entry rp entry = Inr entry"
  by (simp add: process_entry_def)

lemma process_multi_turn_ids:
  "process_multi_turn_test_case rp entries = Inr entries' \<Longrightarrow>
   map (\<lambda>tc. map_of tc ''id'') entries' = map (\<lambda>tc. map_of tc ''id'') entries"
proof (induction entries arbitrary: entries')
  case Nil
  then show ?case by simp
next
  case (Cons e entries)
  from Cons.prems obtain e' rest where e': "process_entry rp e = Inr e'"
    and rest: "process_multi_turn_test_case rp entries = Inr rest"
    and r: "entries' = e' # rest"
    by (auto split: sum.splits)
  show ?case
    using Cons.IH [OF rest] process_entry_id [OF e'] r by simp
qed

lemma collect_test_cases_Inr:
  assumes "collect_test_cases rp model_name cats paths entries = Inr cases"
  shows "\<exists>existing_ids pend.
           ids_of (existing_result rp model_name cats paths) = Inr existing_ids
           \<and> process_multi_turn_test_case rp
                (filter (\<lambda>tc. map_of tc ''id'' \<notin> Some ` set existing_ids) entries) = Inr pend
           \<and> map (\<lambda>tc. map_of tc ''id'') pend
               = filter (\<lambda>i. i \<notin> Some ` set existing_ids) (map (\<lambda>tc. map_of tc ''id'') entries)
           \<and> cases = sort_key (sort_key_fn rp) pend"
proof -
  from assms obtain existing_ids pend0 pend where
    ex: "ids_of (existing_result rp model_name cats paths) = Inr existing_ids"
    and p0: "pending existing_ids entries = Inr pend0"
    and p: "process_multi_turn_test_case rp pend0 = Inr pend"
    and c: "cases = sort_key (sort_key_fn rp) pend"
    by (auto simp: collect_test_cases_def split: sum.splits option.splits)
  from pending_filter [OF p0] process_multi_turn_ids [OF p] ex p c
  show ?thesis
    by auto
qed

section \<open>The run of one model\<close>

lemma attached_ok_attach: "attached_ok (attach tc)"
  by (simp add: attached_ok_def attach_def update_conv')

lemma map_of_attach_other:
  "k \<noteq> ''_stall_event'' \<Longrightarrow> k \<noteq> ''_increment_rate_limit'' \<Longrightarrow> k \<noteq> ''_get_active_count''
   \<Longrightarrow> map_of (attach tc) k = map_of tc k"
  by (simp add: attach_def update_conv')

lemma multi_threaded_inference_id:
  assumes "attached_ok tc"
    and "map_of tc ''id'' = Some i"
    and "map_of tc ''function'' = Some (PList fs)"
    and "\<forall>tr c result metadata. inference ev tr c = Returns result metadata
           \<longrightarrow> map_of metadata ''id'' = None"
    and "multi_threaded_inference fuel ev tc tr = Some (r, s')"
  shows "\<exists>d. r = Inr d \<and> map_of d ''id'' = Some i"
proof -
  let ?s = "\<lparr>test_case = AList.update ''_rate_limit_count'' (PInt 0)
                      (AList.update ''_processing_start_time'' (PFloat (now ev tr)) tc),
        retry_count = 0, rate_limit_count = 0, trace = tr\<rparr>"
  have ok: "attached_ok (test_case ?s)"
    using assms(1) by (simp add: attached_ok_update)
  have idp: "map_of (test_case ?s) ''id'' = Some i"
    using assms(2) by (simp add: update_conv')
  have run: "run_attempts fuel ev ?s = Some (r, s')"
    using assms(5) unfolding multi_threaded_inference_run [OF assms(3)] .
  from run_attempts_id [OF assms(4) ok idp run] show ?thesis .
qed

text \<open>A run that completes has written one result for each test case, with the id of that
  test case, in the order in which the futures completed.\<close>

lemma generate_results_one_result_per_job:
  assumes run: "generate_results False fuel envs w completion_time cases = Some (Completed g)"
    and fn: "\<forall>tc \<in> set cases. \<exists>fs. map_of tc ''function'' = Some (PList fs)"
    and md: "\<forall>j tr c result metadata. inference (envs j) tr c = Returns result metadata
               \<longrightarrow> map_of metadata ''id'' = None"
  shows "map (\<lambda>d. map_of d ''id'') (written g)
           = map (\<lambda>j. map_of (cases ! j) ''id'') (sort_key completion_time [0..<length cases])"
proof -
  let ?futures = "workers fuel envs cases"
  let ?order = "sort_key completion_time [0..<length cases]"
  have len: "length ?futures = length cases"
    by (simp add: workers_def)
  have ids: "\<forall>tc \<in> set cases. map_of tc ''id'' \<noteq> None"
    using run by (auto simp: generate_results_def list_ex_iff split: if_splits)
  have "None \<notin> set ?futures"
    using run by (auto simp: generate_results_def Let_def list_ex_iff split: if_splits)
  then have some: "\<forall>f \<in> set ?futures. f \<noteq> None"
    by metis
  have loop: "as_completed_loop w initial_gstate (map (\<lambda>j. fst (the (?futures ! j))) ?order)
                = Completed g"
    using run by (simp add: generate_results_def Let_def len split: if_splits)
  from as_completed_loop_completed [OF loop] obtain rs where
    rs: "map (\<lambda>j. fst (the (?futures ! j))) ?order = map Inr rs"
    and wr: "written g = written initial_gstate @ map persisted rs"
    by blast
  have lrs: "length rs = length ?order"
    using arg_cong [OF rs, of length] by simp
  have wr': "written g = map persisted rs"
    using wr by (simp add: initial_gstate_def)
  have nth: "map_of (persisted (rs ! k)) ''id'' = map_of (cases ! (?order ! k)) ''id''"
    if k: "k < length ?order" for k
  proof -
    let ?j = "?order ! k"
    have "?j \<in> set ?order"
      using k by (rule nth_mem)
    then have j: "?j < length cases"
      by simp
    have fj: "?futures ! ?j = multi_threaded_inference fuel (envs ?j) (attach (cases ! ?j)) []"
      using j by (simp add: workers_def nth_enumerate_eq)
    have "?futures ! ?j \<in> set ?futures"
      using j len by simp
    with some have "?futures ! ?j \<noteq> None"
      by blast
    then obtain r s' where rs': "?futures ! ?j = Some (r, s')"
      by auto
    have mem: "cases ! ?j \<in> set cases"
      using j by simp
    obtain i where i: "map_of (cases ! ?j) ''id'' = Some i"
      using ids mem by auto
    obtain fs where fs: "map_of (cases ! ?j) ''function'' = Some (PList fs)"
      using fn mem by auto
    have i': "map_of (attach (cases ! ?j)) ''id'' = Some i"
      and fs': "map_of (attach (cases ! ?j)) ''function'' = Some (PList fs)"
      using i fs by (simp_all add: map_of_attach_other)
    have mdj: "\<forall>tr c result metadata. inference (envs ?j) tr c = Returns result metadata
           \<longrightarrow> map_of metadata ''id'' = None"
      using md by blast
    from multi_threaded_inference_id [OF attached_ok_attach i' fs' mdj rs' [unfolded fj]]
    obtain d where d: "r = Inr d" "map_of d ''id'' = Some i"
      by blast
    have "map (\<lambda>j. fst (the (?futures ! j))) ?order ! k = map Inr rs ! k"
      using rs by simp
    then have "fst (the (?futures ! ?j)) = Inr (rs ! k)"
      using k lrs by simp
    then have "rs ! k = d"
      using rs' d(1) by simp
    then show ?thesis
      using d(2) i by (simp add: map_of_persisted)
  qed
  show ?thesis
    unfolding wr'
  proof (rule nth_equalityI)
    show "length (map (\<lambda>d. map_of d ''id'') (map persisted rs))
            = length (map (\<lambda>j. map_of (cases ! j) ''id'') ?order)"
      using lrs by simp
  next
    fix k
    assume "k < length (map (\<lambda>d. map_of d ''id'') (map persisted rs))"
    then have k: "k < length ?order"
      using lrs by simp
    then have "k < length rs"
      using lrs by simp
    then show "map (\<lambda>d. map_of d ''id'') (map persisted rs) ! k
                 = map (\<lambda>j. map_of (cases ! j) ''id'') ?order ! k"
      using nth [OF k] k by (simp del: length_sort)
  qed
qed

lemma stall_watchdog_stops:
  "get_active_count wv (wtrace s @ [WSleep 1]) = 0 \<Longrightarrow>
   stall_watchdog (Suc n) wv s = Some (s\<lparr>wtrace := wtrace s @ [WSleep 1]\<rparr>)"
  by (simp add: watchdog_iteration_def Let_def)

section \<open>The claims\<close>




text \<open>
  C2, as the code has it. A message with explicit "rate limit" phrasing is not enough: the
  code looks for \<^verbatim>\<open>rate limit reached\<close>, so a failure with the message "Rate limit
  exceeded" and no status code is fatal (the counterexample below). What holds: a failure of
  the inference client is transient, and the attempt is followed by another one, if and only
  if the error has status code 429, 500 or 503, or its lower-cased message contains
  \<^verbatim>\<open>rate limit reached\<close>, \<^verbatim>\<open>timeout\<close>, \<^verbatim>\<open>timed out\<close> or \<^verbatim>\<open>relay error\<close>, or its
  message contains the provider's overload string. Every other failure is fatal: the
  attempt is the last one and the job returns the error result, which is a value and not an
  exception, so the run goes on.
\<close>

theorem transient_classification:
  assumes "inference ev (trace s) (snd (strip_and_copy (test_case s))) = Raises e"
    and "attached_ok (test_case s)"
    and "map_of (test_case s) ''id'' = Some i"
  shows "if status_code e = Some 429 \<or> status_code e = Some 500 \<or> status_code e = Some 503
            \<or> substr ''rate limit reached'' (py_lower (message e))
            \<or> substr ''timeout'' (py_lower (message e))
            \<or> substr ''timed out'' (py_lower (message e))
            \<or> substr overload_str (message e)
            \<or> substr ''relay error'' (py_lower (message e))
         then \<exists>s'. attempt ev s = Retry s'
                \<and> invocations (trace s') = invocations (trace s) + 1
         else \<exists>s'. attempt ev s = Finished (Inr (error_result i e)) s'
                \<and> invocations (trace s') = invocations (trace s) + 1"
proof (cases "is_transient e")
  case True
  from attempt_transient [OF assms(1) True assms(2,3)] True
  show ?thesis
    unfolding is_transient_iff by auto
next
  case False
  from attempt_fatal [OF assms(1) False assms(3)] False
  show ?thesis
    unfolding is_transient_iff by (simp add: invocations_append invocations_simps)
qed

theorem transient_classification_witness:
  "\<exists>s'. attempt (scripted (\<lambda>k. Raises invalid_json) 1) (start_state (attach example_job))
          = Finished (Inr [(''id'', PStr ''simple_0''),
                           (''result'', PStr ''Error during inference: Invalid JSON response''),
                           (''traceback'', PStr ''Traceback''),
                           (''_error_type'', PNone)]) s'
        \<and> invocations (trace s') = 1"
proof -
  let ?ev = "scripted (\<lambda>k. Raises invalid_json) 1"
  have a: "attached_ok (test_case (start_state (attach example_job)))"
    and i: "map_of (test_case (start_state (attach example_job))) ''id'' = Some (PStr ''simple_0'')"
    by (simp_all add: attached_ok_def start_state_def attach_def example_job_def)
  have r: "inference ?ev (trace (start_state (attach example_job)))
             (snd (strip_and_copy (test_case (start_state (attach example_job)))))
           = Raises invalid_json"
    by (simp add: scripted_def always_def)
  have tr0: "invocations (trace (start_state (attach example_job))) = 0"
    by (simp add: start_state_def invocations_def)
  have er: "error_result (PStr ''simple_0'') invalid_json
            = [(''id'', PStr ''simple_0''),
               (''result'', PStr ''Error during inference: Invalid JSON response''),
               (''traceback'', PStr ''Traceback''),
               (''_error_type'', PNone)]"
    by (simp add: error_result_def error_type_of_def invalid_json_def)
  have c: "\<not> (status_code invalid_json = Some 429 \<or> status_code invalid_json = Some 500
               \<or> status_code invalid_json = Some 503
            \<or> substr ''rate limit reached'' (py_lower (message invalid_json))
            \<or> substr ''timeout'' (py_lower (message invalid_json))
            \<or> substr ''timed out'' (py_lower (message invalid_json))
            \<or> substr overload_str (message invalid_json)
            \<or> substr ''relay error'' (py_lower (message invalid_json)))"
    by (simp add: invalid_json_def py_lower_def lower_char_def overload_str_def)
  show ?thesis
    using transient_classification [OF r a i] c unfolding er tr0 by simp
qed

theorem transient_classification_counterexample:
  "spec_transient rate_limit_exceeded
   \<and> \<not> is_Retry (attempt (scripted (always (Raises rate_limit_exceeded)) 1)
                   (start_state (attach example_job)))
   \<and> map_option fst
        (multi_threaded_inference 2 (scripted (always (Raises rate_limit_exceeded)) 1)
           (attach example_job) [])
      = Some (Inr (error_result (PStr ''simple_0'') rate_limit_exceeded))
   \<and> map_option (invocations \<circ> trace \<circ> snd)
        (multi_threaded_inference 2 (scripted (always (Raises rate_limit_exceeded)) 1)
           (attach example_job) [])
      = Some 1"
proof -
  let ?ev = "scripted (always (Raises rate_limit_exceeded)) 1"
  have sp: "spec_transient rate_limit_exceeded"
    by (simp add: spec_transient_def rate_limit_exceeded_def py_lower_def lower_char_def)
  have nt: "\<not> is_transient rate_limit_exceeded"
    by (simp add: is_transient_def rate_limit_exceeded_def py_lower_def lower_char_def
        overload_str_def)
  have a: "attached_ok (attach example_job)"
    and i: "map_of (attach example_job) ''id'' = Some (PStr ''simple_0'')"
    and f: "map_of (attach example_job) ''function'' = Some (PList [])"
    by (simp_all add: attached_ok_def attach_def example_job_def)
  have r: "inference ?ev (trace (start_state (attach example_job)))
             (snd (strip_and_copy (test_case (start_state (attach example_job)))))
           = Raises rate_limit_exceeded"
    by (simp add: scripted_def always_def)
  have i': "map_of (test_case (start_state (attach example_job))) ''id'' = Some (PStr ''simple_0'')"
    using i by (simp add: start_state_def)
  have one: "\<not> is_Retry (attempt ?ev (start_state (attach example_job)))"
    using attempt_fatal [OF r nt i'] by simp
  have out: "\<forall>tr c. invocations tr = 0 \<longrightarrow> inference ?ev tr c = Raises rate_limit_exceeded"
    and fail: "\<forall>tr c. invocations tr < 0 \<longrightarrow> (\<exists>e. inference ?ev tr c = Raises e \<and> is_transient e)"
    by (simp_all add: scripted_def always_def)
  have nt': "\<forall>e. Raises rate_limit_exceeded = Raises e \<longrightarrow> \<not> is_transient e"
    using nt by simp
  from multi_threaded_inference_after_failures [OF a i f fail out nt', of 2]
  show ?thesis
    using sp one by auto
qed



text \<open>
  C4. The inference client is invoked once more than the number of transient failures:
  after \<open>k\<close> transient failures in a row, for any \<open>k\<close> (the constant RETRY_LIMIT is
  used nowhere and bounds nothing), the outcome of call \<open>k + 1\<close> ends the job when it is
  a success or a failure that is not transient. A success gives the success result, a fatal
  failure the error result at once, so a job whose first failure is fatal (\<open>k = 0\<close>)
  invokes the client exactly once. The job returns as soon as the loop is followed for more
  than \<open>k\<close> attempts.
\<close>

theorem invocations_one_plus_transient_failures:
  assumes "attached_ok tc"
    and "map_of tc ''id'' = Some i"
    and "map_of tc ''function'' = Some (PList fs)"
    and "\<forall>tr c. invocations tr < k \<longrightarrow> (\<exists>e. inference ev tr c = Raises e \<and> is_transient e)"
    and "\<forall>tr c. invocations tr = k \<longrightarrow> inference ev tr c = out"
    and "\<forall>e. out = Raises e \<longrightarrow> \<not> is_transient e"
    and "k < fuel"
  shows "\<exists>s'. multi_threaded_inference fuel ev tc [] =
            Some (Inr (case out of
                         Returns result metadata \<Rightarrow> success_result i result metadata k
                       | Raises e \<Rightarrow> error_result i e), s')
          \<and> invocations (trace s') = k + 1"
  using multi_threaded_inference_after_failures [OF assms] .

theorem invocations_one_plus_transient_failures_witness:
  "RETRY_LIMIT < 4
   \<and> (\<exists>s'. multi_threaded_inference 5
             (scripted (\<lambda>k. if k < 4 then Raises rate_limited else Returns (PStr ''ok'') []) 1)
             (attach example_job) []
           = Some (Inr [(''id'', PStr ''simple_0''), (''result'', PStr ''ok''),
                        (''_rate_limit_count'', PInt 4)], s')
          \<and> invocations (trace s') = 5)"
proof -
  let ?ev = "scripted (\<lambda>k. if k < 4 then Raises rate_limited else Returns (PStr ''ok'') []) 1"
  have a: "attached_ok (attach example_job)"
    and i: "map_of (attach example_job) ''id'' = Some (PStr ''simple_0'')"
    and f: "map_of (attach example_job) ''function'' = Some (PList [])"
    by (simp_all add: attached_ok_def attach_def example_job_def)
  have t: "is_transient rate_limited"
    by (simp add: is_transient_def rate_limited_def py_lower_def lower_char_def)
  have fail: "\<forall>tr c. invocations tr < 4 \<longrightarrow> (\<exists>e. inference ?ev tr c = Raises e \<and> is_transient e)"
    using t by (simp add: scripted_def always_def)
  have out: "\<forall>tr c. invocations tr = 4 \<longrightarrow> inference ?ev tr c = Returns (PStr ''ok'') []"
    by (simp add: scripted_def always_def)
  have nt: "\<forall>e. Returns (PStr ''ok'') [] = Raises e \<longrightarrow> \<not> is_transient e"
    by simp
  have r: "success_result (PStr ''simple_0'') (PStr ''ok'') [] 4
           = [(''id'', PStr ''simple_0''), (''result'', PStr ''ok''), (''_rate_limit_count'', PInt 4)]"
    by (simp add: success_result_def dict_update_def)
  show ?thesis
    using invocations_one_plus_transient_failures [OF a i f fail out nt, of 5] r
    by (simp add: RETRY_LIMIT_def)
qed

text \<open>
  C5. When collect_test_cases returns, it returns the test cases whose ids are not among
  the ids of the results already in the result files: the ids returned are, up to order,
  those of the test entries that are not persisted, each as often as it occurs, and none of
  them is a persisted id. The list is sorted by the sort key (the sort is a function of its
  input and stable, so the order is the same in every run). The caller hands exactly this
  list to generate_results, and when the list is empty it reports that there is nothing to
  generate and raises nothing.
\<close>

theorem collect_test_cases_pending_sorted:
  assumes "collect_test_cases rp model_name cats paths entries = Inr cases"
  shows "\<exists>existing_ids pend.
           ids_of (existing_result rp model_name cats paths) = Inr existing_ids
           \<and> cases = sort_key (sort_key_fn rp) pend
           \<and> map (\<lambda>tc. map_of tc ''id'') pend
               = filter (\<lambda>i. i \<notin> Some ` set existing_ids) (map (\<lambda>tc. map_of tc ''id'') entries)
           \<and> sorted (map (sort_key_fn rp) cases)
           \<and> set (map (\<lambda>tc. map_of tc ''id'') cases) \<inter> Some ` set existing_ids = {}
           \<and> main_for_model rp model_name cats paths entries
               = (if cases = [] then Report NothingToGenerate else CallGenerateResults cases)"
proof -
  from collect_test_cases_Inr [OF assms] obtain existing_ids pend where
    ex: "ids_of (existing_result rp model_name cats paths) = Inr existing_ids"
    and ids: "map (\<lambda>tc. map_of tc ''id'') pend
               = filter (\<lambda>i. i \<notin> Some ` set existing_ids) (map (\<lambda>tc. map_of tc ''id'') entries)"
    and c: "cases = sort_key (sort_key_fn rp) pend"
    by blast
  have srt: "sorted (map (sort_key_fn rp) cases)"
    unfolding c by (rule sorted_sort_key)
  have "set (map (\<lambda>tc. map_of tc ''id'') cases) = set (map (\<lambda>tc. map_of tc ''id'') pend)"
    unfolding c by simp
  then have disj: "set (map (\<lambda>tc. map_of tc ''id'') cases) \<inter> Some ` set existing_ids = {}"
    unfolding ids by auto
  have m: "main_for_model rp model_name cats paths entries
               = (if cases = [] then Report NothingToGenerate else CallGenerateResults cases)"
    by (simp add: main_for_model_def assms)
  show ?thesis
    using ex c ids srt disj m by blast
qed

theorem collect_test_cases_pending_sorted_witness:
  "collect_test_cases example_repo ''openai/gpt-4'' [''simple''] [''BFCL_v3_simple.json'']
     [entry_of ''simple_10'', entry_of ''simple_2'', entry_of ''simple_3'']
     = Inr [entry_of ''simple_3'', entry_of ''simple_10'']
   \<and> sorted (map (sort_key_fn example_repo) [entry_of ''simple_3'', entry_of ''simple_10''])
   \<and> main_for_model example_repo ''openai/gpt-4'' [''simple''] [''BFCL_v3_simple.json'']
       [entry_of ''simple_10'', entry_of ''simple_2'', entry_of ''simple_3'']
     = CallGenerateResults [entry_of ''simple_3'', entry_of ''simple_10'']"
proof -
  have d: "str_replace ''/'' ''_'' ''openai/gpt-4'' = ''openai_gpt-4''"
    by (simp add: str_replace.simps)
  have f: "str_replace ''.json'' ''_result.json'' ''BFCL_v3_simple.json''
           = ''BFCL_v3_simple_result.json''"
    by (simp add: str_replace.simps)
  have ex: "existing_result example_repo ''openai/gpt-4'' [''simple''] [''BFCL_v3_simple.json'']
            = [result_of ''simple_2'']"
    by (simp add: existing_result_def d f example_repo_def)
  have sel: "is_multi_turn example_repo = (\<lambda>i. False)"
    "sort_key_fn example_repo
       = (\<lambda>tc. case map_of tc ''id'' of Some (PStr s) \<Rightarrow> int (length s) | _ \<Rightarrow> 0)"
    by (simp_all add: example_repo_def)
  have run: "collect_test_cases example_repo ''openai/gpt-4'' [''simple''] [''BFCL_v3_simple.json'']
     [entry_of ''simple_10'', entry_of ''simple_2'', entry_of ''simple_3'']
     = Inr [entry_of ''simple_3'', entry_of ''simple_10'']"
    by (simp add: collect_test_cases_def ex result_of_def entry_of_def process_entry_def sel)
  have ne: "[entry_of ''simple_3'', entry_of ''simple_10''] \<noteq> []"
    by simp
  show ?thesis
    using collect_test_cases_pending_sorted [OF run] run ne by auto
qed



text \<open>
  C7. Every result handed to \<^verbatim>\<open>handler.write\<close>, in a run that completes or aborts, has
  none of the keys \<^verbatim>\<open>_error_type\<close>, \<^verbatim>\<open>_rate_limit_count\<close>, \<^verbatim>\<open>_increment_rate_limit\<close>,
  \<^verbatim>\<open>_get_active_count\<close>, \<^verbatim>\<open>_stall_event\<close> and \<^verbatim>\<open>_processing_start_time\<close>, although
  the success result that multi_threaded_inference returns carries \<^verbatim>\<open>_rate_limit_count\<close>
  when there were rate-limit retries.
\<close>

theorem persisted_has_no_internal_fields:
  assumes "as_completed_loop w initial_gstate futs = r"
    and "r = Completed g \<or> r = SysExit c g"
    and "p \<in> set (write_calls g)"
  shows "map_of p ''_error_type'' = None
         \<and> map_of p ''_rate_limit_count'' = None
         \<and> map_of p ''_increment_rate_limit'' = None
         \<and> map_of p ''_get_active_count'' = None
         \<and> map_of p ''_stall_event'' = None
         \<and> map_of p ''_processing_start_time'' = None
         \<and> (0 < n \<longrightarrow> map_of (success_result i result metadata n) ''_rate_limit_count''
                          = Some (PInt (int n)))"
proof -
  from as_completed_loop_write_calls [OF assms]
  obtain res where "p = persisted res"
    by (auto simp: initial_gstate_def)
  then show ?thesis
    by (simp add: map_of_persisted success_result_def Let_def update_conv')
qed

theorem persisted_has_no_internal_fields_witness:
  "map_of (success_result (PStr ''a'') (PStr ''ok'') [] 2) ''_rate_limit_count'' = Some (PInt 2)
   \<and> as_completed_loop write_ok initial_gstate [Inr (success_result (PStr ''a'') (PStr ''ok'') [] 2)]
       = Completed \<lparr>content_filter_count = 0, write_calls = [result_of ''a''],
                    written = [result_of ''a''], printed = []\<rparr>
   \<and> map_of (result_of ''a'') ''_rate_limit_count'' = None"
proof -
  let ?g = "\<lparr>content_filter_count = 0, write_calls = [result_of ''a''],
              written = [result_of ''a''], printed = []\<rparr>"
  have s: "success_result (PStr ''a'') (PStr ''ok'') [] 2
           = [(''id'', PStr ''a''), (''result'', PStr ''ok''), (''_rate_limit_count'', PInt 2)]"
    by (simp add: success_result_def dict_update_def)
  have p: "persisted (success_result (PStr ''a'') (PStr ''ok'') [] 2) = result_of ''a''"
    unfolding s
    by (simp add: persisted_def count_error_type_def strip_internal_def result_of_def
        AList.delete_eq)
  have run: "as_completed_loop write_ok initial_gstate
               [Inr (success_result (PStr ''a'') (PStr ''ok'') [] 2)] = Completed ?g"
    unfolding process_future_Inr as_completed_loop.simps p
    by (simp add: s write_ok_def initial_gstate_def)
  have mem: "result_of ''a'' \<in> set (write_calls ?g)"
    by simp
  show ?thesis
    using persisted_has_no_internal_fields [OF run _ mem, of 0 2 "PStr ''a''" "PStr ''ok''" "[]"] run
    by simp
qed

text \<open>
  C8. In one pass of its loop the watchdog thread sets the stall event exactly when the
  number of futures not done is between 1 and 8, more than 10 seconds have passed since the
  last completion, the whole seconds of that idle time are a multiple of 10, and that
  boundary is not the one it signalled last. When it does, it sets the event, records the
  time of the pulse, sleeps half a second and clears the event, and remembers the boundary;
  otherwise it only sleeps its one second and changes nothing. This is what the watchdog
  thread itself does; times are the values it reads from the clock.
\<close>

theorem watchdog_pulse:
  "(let tr1 = wtrace s @ [WSleep 1];
        active = get_active_count wv tr1;
        idle = time_now wv tr1 - last_completion_time wv tr1;
        s' = snd (watchdog_iteration wv s)
    in if 1 \<le> active \<and> active \<le> 8 \<and> 10 < idle \<and> py_int idle mod 10 = 0
          \<and> last_poke_time s \<noteq> Some (py_int idle)
       then wtrace s' = tr1 @ [SetEvent, WSleep (1/2), ClearEvent]
            \<and> last_poke_time s' = Some (py_int idle)
            \<and> last_poke_timestamp s' = Some (time_now wv (tr1 @ [SetEvent]))
            \<and> poke_count s' = poke_count s + 1
       else wtrace s' = tr1
            \<and> last_poke_time s' = last_poke_time s
            \<and> last_poke_timestamp s' = last_poke_timestamp s
            \<and> poke_count s' = poke_count s)"
  by (simp add: watchdog_iteration_def Let_def)

theorem watchdog_pulse_witness:
  "wtrace (snd (watchdog_iteration stalled initial_wstate))
     = [WSleep 1, SetEvent, WSleep (1/2), ClearEvent]
   \<and> last_poke_time (snd (watchdog_iteration stalled initial_wstate)) = Some 20
   \<and> wtrace (snd (watchdog_iteration stalled (snd (watchdog_iteration stalled initial_wstate))))
     = [WSleep 1, SetEvent, WSleep (1/2), ClearEvent, WSleep 1]"
proof -
  have fl: "\<lfloor>203 / 10 :: rat\<rfloor> = 20"
    by (rule floor_unique) simp_all
  have f: "py_int (203 / 10) = 20"
    by (simp add: py_int_def fl)
  have a: "get_active_count stalled tr = 3" "time_now stalled tr = 203 / 10"
    "last_completion_time stalled tr = 0" for tr
    by (simp_all add: stalled_def)
  have i: "wtrace initial_wstate = []" "last_poke_time initial_wstate = None"
    by (simp_all add: initial_wstate_def)
  have first: "wtrace (snd (watchdog_iteration stalled initial_wstate))
                 = [WSleep 1, SetEvent, WSleep (1/2), ClearEvent]"
    "last_poke_time (snd (watchdog_iteration stalled initial_wstate)) = Some 20"
    using watchdog_pulse [of initial_wstate stalled] by (simp_all add: Let_def a i f)
  show ?thesis
    using watchdog_pulse [of "snd (watchdog_iteration stalled initial_wstate)" stalled] first
    by (simp add: Let_def a f)
qed

text \<open>
  C9, as the code has it. The check for a content-policy rejection is made only for a
  failure that is not transient: an error whose message contains \<^verbatim>\<open>content_filter\<close> and
  that has status code 429 is retried (the counterexample below). What holds: an error
  that is not transient and whose message contains \<^verbatim>\<open>content_filter\<close> or
  \<^verbatim>\<open>content management policy\<close> ends the job in the attempt in which it occurs, with one
  error result for the id of the job that carries the tag \<^verbatim>\<open>content_filter\<close>; when that
  result is processed the content-filter counter goes up by one and the result handed to
  the writer has no tag.
\<close>

theorem content_filter_not_retried:
  assumes "inference ev (trace s) (snd (strip_and_copy (test_case s))) = Raises e"
    and "\<not> is_transient e"
    and "substr ''content_filter'' (message e) \<or> substr ''content management policy'' (message e)"
    and "map_of (test_case s) ''id'' = Some i"
  shows "\<exists>s' r fl g'.
           attempt ev s = Finished (Inr r) s'
           \<and> invocations (trace s') = invocations (trace s) + 1
           \<and> map_of r ''id'' = Some i
           \<and> map_of r ''_error_type'' = Some (PStr ''content_filter'')
           \<and> process_future w g (Inr r) = (fl, g')
           \<and> content_filter_count g' = content_filter_count g + 1
           \<and> write_calls g' = write_calls g @ [persisted r]
           \<and> map_of (persisted r) ''_error_type'' = None
           \<and> map_of (persisted r) ''id'' = Some i"
proof -
  let ?r = "error_result i e"
  let ?s' = "s\<lparr>test_case := fst (strip_and_copy (test_case s)),
               trace := trace s @ [Infer (snd (strip_and_copy (test_case s)))]\<rparr>"
  have a: "attempt ev s = Finished (Inr ?r) ?s'"
    using attempt_fatal [OF assms(1,2,4)] .
  have inv: "invocations (trace ?s') = invocations (trace s) + 1"
    by (simp add: invocations_append invocations_simps)
  have tag: "map_of ?r ''_error_type'' = Some (PStr ''content_filter'')"
    using assms(3) by (simp add: error_result_def error_type_of_def)
  obtain fl g' where pf: "process_future w g (Inr ?r) = (fl, g')"
    by (cases "process_future w g (Inr ?r)")
  have cf: "content_filter_count g' = content_filter_count g + 1"
    and wc: "write_calls g' = write_calls g @ [persisted ?r]"
    using pf tag by (auto simp: process_future_Inr Let_def split: option.splits)
  have p: "map_of (persisted ?r) ''_error_type'' = None" "map_of (persisted ?r) ''id'' = Some i"
    by (simp_all add: map_of_persisted error_result_id)
  show ?thesis
    apply (rule exI [of _ ?s'])
    apply (rule exI [of _ ?r])
    apply (rule exI [of _ fl])
    apply (rule exI [of _ g'])
    using a inv tag pf cf wc p error_result_id [of i e] by simp
qed


theorem content_filter_not_retried_witness:
  "\<exists>s' r fl g'.
     attempt (scripted (\<lambda>k. Raises filtered_400) 1) (start_state (attach example_job))
       = Finished (Inr r) s'
     \<and> invocations (trace s') = 1
     \<and> map_of r ''_error_type'' = Some (PStr ''content_filter'')
     \<and> process_future write_ok initial_gstate (Inr r) = (fl, g')
     \<and> content_filter_count g' = 1
     \<and> write_calls g' = [persisted r]
     \<and> map_of (persisted r) ''_error_type'' = None"
proof -
  let ?ev = "scripted (\<lambda>k. Raises filtered_400) 1"
  have r: "inference ?ev (trace (start_state (attach example_job)))
             (snd (strip_and_copy (test_case (start_state (attach example_job)))))
           = Raises filtered_400"
    by (simp add: scripted_def always_def)
  have nt: "\<not> is_transient filtered_400"
    by (simp add: is_transient_def filtered_400_def py_lower_def lower_char_def overload_str_def)
  have cf: "substr ''content_filter'' (message filtered_400)
            \<or> substr ''content management policy'' (message filtered_400)"
    by (simp add: filtered_400_def)
  have i: "map_of (test_case (start_state (attach example_job))) ''id'' = Some (PStr ''simple_0'')"
    by (simp add: start_state_def attach_def example_job_def)
  have tr0: "invocations (trace (start_state (attach example_job))) = 0"
    and g0: "content_filter_count initial_gstate = 0" "write_calls initial_gstate = []"
    by (simp_all add: start_state_def invocations_def initial_gstate_def)
  from content_filter_not_retried [OF r nt cf i, of write_ok initial_gstate]
  obtain s' r fl g' where
    "attempt ?ev (start_state (attach example_job)) = Finished (Inr r) s'"
    "invocations (trace s') = invocations (trace (start_state (attach example_job))) + 1"
    "map_of r ''_error_type'' = Some (PStr ''content_filter'')"
    "process_future write_ok initial_gstate (Inr r) = (fl, g')"
    "content_filter_count g' = content_filter_count initial_gstate + 1"
    "write_calls g' = write_calls initial_gstate @ [persisted r]"
    "map_of (persisted r) ''_error_type'' = None"
    by blast
  then show ?thesis
    unfolding tr0 g0
    apply (intro exI [of _ s'] exI [of _ r] exI [of _ fl] exI [of _ g'])
    by simp
qed

theorem content_filter_not_retried_counterexample:
  "error_type_of filtered_429 = PStr ''content_filter''
   \<and> is_Retry (attempt (scripted (always (Raises filtered_429)) 1)
                 (start_state (attach example_job)))"
proof -
  let ?ev = "scripted (always (Raises filtered_429)) 1"
  have r: "inference ?ev (trace (start_state (attach example_job)))
             (snd (strip_and_copy (test_case (start_state (attach example_job)))))
           = Raises filtered_429"
    by (simp add: scripted_def always_def)
  have t: "is_transient filtered_429"
    by (simp add: is_transient_def filtered_429_def py_lower_def lower_char_def)
  have a: "attached_ok (test_case (start_state (attach example_job)))"
    and i: "map_of (test_case (start_state (attach example_job))) ''id'' = Some (PStr ''simple_0'')"
    by (simp_all add: attached_ok_def start_state_def attach_def example_job_def)
  have e: "error_type_of filtered_429 = PStr ''content_filter''"
    by (simp add: error_type_of_def filtered_429_def)
  from attempt_transient [OF r t a i]
  obtain s' where "attempt ?ev (start_state (attach example_job)) = Retry s'"
    by blast
  then show ?thesis
    using e by simp
qed

text \<open>
  C10. If the test case has no \<^verbatim>\<open>_get_active_count\<close> key, the active count used is 999,
  whatever number of futures is not done, so the backoff after a rate limit is scheduled for
  the default 65 seconds and never for one of the shorter delays of the table; the key is
  still absent after the attempt, so this holds for every backoff of the job. The wait is at
  most 65 seconds, and exactly 65 seconds when no stall event cuts it short.
\<close>

theorem missing_callback_default_delay:
  assumes "inference ev (trace s) (snd (strip_and_copy (test_case s))) = Raises e"
    and "is_transient e"
    and "\<not> is_timeout e"
    and "attached_ok (test_case s)"
    and "map_of (test_case s) ''id'' = Some i"
    and "map_of (test_case s) ''_get_active_count'' = None"
  shows "get_active_test_count ev (test_case s) tr = Inr 999
         \<and> (\<exists>s'. attempt ev s = Retry s'
                \<and> map_of (test_case s') ''_get_active_count'' = None
                \<and> slept (trace s') \<le> slept (trace s) + 65
                \<and> (map_of (test_case s) ''_stall_event'' = None \<or> (\<forall>t. \<not> is_set ev t)
                     \<longrightarrow> slept (trace s') = slept (trace s) + 65))"
proof -
  from attempt_transient_sleep [OF assms(1,2,4,5)]
  obtain s' tr1 where s': "attempt ev s = Retry s'"
      "\<not> is_timeout e \<longrightarrow>
         (let d = dynamic_delay (if map_of (test_case s) ''_get_active_count'' = None
                                 then 999 else active_count ev tr1)
          in slept (trace s') \<le> slept (trace s) + of_int d
             \<and> (map_of (test_case s) ''_stall_event'' = None \<or> (\<forall>t. \<not> is_set ev t)
                 \<longrightarrow> slept (trace s') = slept (trace s) + of_int d))"
    by blast
  from attempt_transient [OF assms(1,2,4,5)] s'(1)
  have keep: "map_of (test_case s') ''_get_active_count'' = map_of (test_case s) ''_get_active_count''"
    by auto
  have d: "dynamic_delay 999 = 65"
    by (simp add: dynamic_delay_def RETRY_DELAY_def)
  have g: "get_active_test_count ev (test_case s) tr = Inr 999"
    using assms(6) by (simp add: get_active_test_count_def)
  show ?thesis
    using s' keep assms(3,6) g by (simp add: d Let_def)
qed

theorem missing_callback_default_delay_witness:
  "get_active_test_count (scripted (\<lambda>k. Raises rate_limited) 1) example_job [] = Inr 999
   \<and> (\<exists>s'. attempt (scripted (\<lambda>k. Raises rate_limited) 1) (start_state example_job) = Retry s'
          \<and> slept (trace s') = 65)"
proof -
  have a: "attached_ok (test_case (start_state example_job))"
    and i: "map_of (test_case (start_state example_job)) ''id'' = Some (PStr ''simple_0'')"
    and g: "map_of (test_case (start_state example_job)) ''_get_active_count'' = None"
    by (simp_all add: attached_ok_def start_state_def example_job_def)
  have t: "is_transient rate_limited" and nt: "\<not> is_timeout rate_limited"
    by (simp_all add: is_transient_def is_timeout_def rate_limited_def py_lower_def lower_char_def)
  have r: "inference (scripted (\<lambda>k. Raises rate_limited) 1)
             (trace (start_state example_job))
             (snd (strip_and_copy (test_case (start_state example_job))))
           = Raises rate_limited"
    and ns: "\<forall>t. \<not> is_set (scripted (\<lambda>k. Raises rate_limited) 1) t"
    by (simp_all add: scripted_def always_def)
  have tr0: "slept (trace (start_state example_job)) = 0"
    and tc0: "test_case (start_state example_job) = example_job"
    by (simp_all add: start_state_def slept_def)
  show ?thesis
    using missing_callback_default_delay [OF r t nt a i g, of "[]"] ns tr0 tc0 by auto
qed

end
